theory Spec2Isabelle
  imports Complex_Main
begin

section \<open>Values\<close>

text \<open>
  The library works on plain JavaScript data: request query strings, JSON bodies and socket
  payloads. A value is a primitive, a regular expression object (the compiler creates these),
  an array or an object. An object is kept as the list of its own enumerable properties in
  enumeration order, which is the order \<^verbatim>\<open>_.each\<close> and \<^verbatim>\<open>_.keys\<close> visit them in.
  Numbers are restricted to integers. \<open>JRegExp p f\<close> stands for the object that
  \<^verbatim>\<open>new RegExp(p, f)\<close> builds when the engine accepts the pattern and the flags.
\<close>

datatype jsval =
    JUndefined
  | JNull
  | JBool bool
  | JNum int
  | JStr string
  | JRegExp string string
  | JArr "jsval list"
  | JObj "(string \<times> jsval) list"

datatype error = TypeError | SyntaxError

text \<open>\<^verbatim>\<open>typeof v === 'object'\<close>: true of \<^verbatim>\<open>null\<close>, regular expressions, arrays and objects.\<close>

fun typeof_object :: "jsval \<Rightarrow> bool" where
  "typeof_object JNull = True"
| "typeof_object (JRegExp p f) = True"
| "typeof_object (JArr xs) = True"
| "typeof_object (JObj ps) = True"
| "typeof_object v = False"

text \<open>Truthiness, as used by \<^verbatim>\<open>a || b\<close> and by conditions.\<close>

fun truthy :: "jsval \<Rightarrow> bool" where
  "truthy JUndefined = False"
| "truthy JNull = False"
| "truthy (JBool b) = b"
| "truthy (JNum n) = (n \<noteq> 0)"
| "truthy (JStr s) = (s \<noteq> [])"
| "truthy v = True"

definition js_or :: "jsval \<Rightarrow> jsval \<Rightarrow> jsval" where
  "js_or a b = (if truthy a then a else b)"

subsection \<open>Strings\<close>

text \<open>\<^verbatim>\<open>str.split(c)\<close> for a one-character separator, and \<^verbatim>\<open>arr.join(sep)\<close>.\<close>

fun split_on :: "char \<Rightarrow> string \<Rightarrow> string list" where
  "split_on c [] = [[]]"
| "split_on c (x # xs) =
     (if x = c then [] # split_on c xs
      else (case split_on c xs of
              [] \<Rightarrow> [[x]]
            | y # ys \<Rightarrow> (x # y) # ys))"

fun join_with :: "string \<Rightarrow> string list \<Rightarrow> string" where
  "join_with sep [] = []"
| "join_with sep [x] = x"
| "join_with sep (x # y # ys) = x @ sep @ join_with sep (y # ys)"

fun digit_char :: "nat \<Rightarrow> char" where
  "digit_char n = char_of (48 + n)"

fun string_of_nat :: "nat \<Rightarrow> string" where
  "string_of_nat n =
     (if n < 10 then [digit_char n] else string_of_nat (n div 10) @ [digit_char (n mod 10)])"

fun string_of_int :: "int \<Rightarrow> string" where
  "string_of_int i =
     (if i < 0 then CHR ''-'' # string_of_nat (nat (- i)) else string_of_nat (nat i))"

text \<open>
  The string conversion that \<^verbatim>\<open>new RegExp(v)\<close> and \<^verbatim>\<open>parseInt(v)\<close> apply to a
  value that is not a string. An array is the comma-joined conversion of its elements,
  with \<^verbatim>\<open>null\<close> and \<^verbatim>\<open>undefined\<close> elements giving the empty string.
\<close>

fun js_toString :: "jsval \<Rightarrow> string" where
  "js_toString JUndefined = ''undefined''"
| "js_toString JNull = ''null''"
| "js_toString (JBool b) = (if b then ''true'' else ''false'')"
| "js_toString (JNum n) = string_of_int n"
| "js_toString (JStr s) = s"
| "js_toString (JRegExp p f) = ''/'' @ p @ ''/'' @ f"
| "js_toString (JArr xs) =
     join_with '','' (map (\<lambda>x. if x = JNull \<or> x = JUndefined then [] else js_toString x) xs)"
| "js_toString (JObj ps) = ''[object Object]''"

subsection \<open>Objects\<close>

text \<open>
  \<^verbatim>\<open>obj[k]\<close> (a missing property reads as \<^verbatim>\<open>undefined\<close>), \<^verbatim>\<open>obj[k] = v\<close> (an existing
  property keeps its place, a new one goes last) and \<^verbatim>\<open>delete obj[k]\<close>.
\<close>

definition obj_get :: "(string \<times> jsval) list \<Rightarrow> string \<Rightarrow> jsval" where
  "obj_get ps k = (case map_of ps k of None \<Rightarrow> JUndefined | Some v \<Rightarrow> v)"

fun obj_set :: "string \<Rightarrow> jsval \<Rightarrow> (string \<times> jsval) list \<Rightarrow> (string \<times> jsval) list" where
  "obj_set k v [] = [(k, v)]"
| "obj_set k v (p # ps) = (if fst p = k then (k, v) # ps else p # obj_set k v ps)"

definition obj_delete :: "string \<Rightarrow> (string \<times> jsval) list \<Rightarrow> (string \<times> jsval) list" where
  "obj_delete k ps = filter (\<lambda>p. fst p \<noteq> k) ps"

section \<open>Configuration\<close>

text \<open>The data settings of \<^verbatim>\<open>exports.config\<close>, with their default values.\<close>

record config =
  baseURL :: string
  queryOffset :: jsval
  queryLimit :: jsval
  querySort :: jsval
  schemaFieldIgnore :: "string list"
  queryOperatorIgnore :: "string list"
  fieldModifiers :: "string list"

definition exports_config :: config where
  "exports_config = \<lparr>
     baseURL = ''/api/'',
     queryOffset = JNum 0,
     queryLimit = JNum 0,
     querySort = JObj [],
     schemaFieldIgnore = [''__v''],
     queryOperatorIgnore = [
       ''$addToSet'', ''$all'', ''$and'', ''$bit'', ''$box'', ''$center'', ''$centerSphere'',
       ''$comment'', ''$each'', ''$elemMatch (query)'', ''$exists'', ''$explain'', ''$geoIntersects'',
       ''$geoWithin'', ''$geometry'', ''$gt'', ''$gte'', ''$hint'', ''$in'', ''$inc'', ''$isolated'', ''$lt'',
       ''$lte'', ''$max'', ''$maxDistance'', ''$maxScan'', ''$min'', ''$mod'', ''$natural'', ''$ne'', ''$near'',
       ''$nearSphere'', ''$nin'', ''$nor'', ''$not'', ''$or'', ''$orderby'', ''$polygon'', ''$pop'',
       ''$pull'', ''$pullAll'', ''$push'', ''$pushAll'', ''$query'', ''$regex'', ''$rename'',
       ''$returnKey'', ''$set'', ''$setOnInsert'', ''$showDiskLoc'', ''$size'', ''$slice'', ''$snapshot'',
       ''$sort'', ''$type'', ''$uniqueDocs'', ''$unset'', ''$where'',
       ''$elemMatch'', ''$slice'',
       ''$add'', ''$addToSet'', ''$and'', ''$avg'', ''$cmp'', ''$concat'', ''$cond'', ''$dayOfMonth'',
       ''$dayOfWeek'', ''$dayOfYear'', ''$divide'', ''$eq'', ''$first'', ''$geoNear'', ''$group'', ''$gt'',
       ''$gte'', ''$hour'', ''$ifNull'', ''$last'', ''$limit'', ''$lt'', ''$lte'', ''$match'', ''$max'',
       ''$millisecond'', ''$min'', ''$minute'', ''$mod'', ''$month'', ''$multiply'', ''$ne'', ''$not'',
       ''$or'', ''$project'', ''$push'', ''$second'', ''$skip'', ''$sort'', ''$strcasecmp'', ''$substr'',
       ''$subtract'', ''$sum'', ''$toLower'', ''$toUpper'', ''$unwind'', ''$week'', ''$year''],
     fieldModifiers = [''contains'', ''regex'']
   \<rparr>"

section \<open>Field modifiers\<close>

text \<open>
  \<^verbatim>\<open>escapeRegExp\<close> puts a backslash before each of the characters
  \<^verbatim>\<open>- [ ] / { } ( ) * + ? . \ ^ $ |\<close> and leaves every other character alone.
\<close>

definition regexp_specials :: "char list" where
  "regexp_specials = ''-[]/{}()*+?.^$|'' @ [CHR 0x5C]"

definition escapeRegExp :: "string \<Rightarrow> string" where
  "escapeRegExp str =
     concat (map (\<lambda>c. if c \<in> set regexp_specials then [CHR 0x5C, c] else [c]) str)"

text \<open>
  \<^verbatim>\<open>new RegExp(pattern, flags)\<close> throws a SyntaxError when the engine rejects the pattern
  or the flags. The engine belongs to the platform, not to the library, and its grammar is
  not written out here: \<open>engine pattern flags\<close> says whether the engine accepts, and is a
  parameter of everything that builds a regular expression. One part of the grammar is
  fixed, because every engine accepts it. The syntax characters of a pattern are
  \<^verbatim>\<open>^ $ \ . * + ? ( ) [ ] { } |\<close>; every other character is ordinary. A simple pattern is
  a sequence of terms: \<^verbatim>\<open>^\<close>, \<^verbatim>\<open>$\<close>, or an atom followed by at most one of \<^verbatim>\<open>* + ?\<close>, an
  atom being an ordinary character, a dot, or a backslash before one of the punctuation
  characters above. Simple flags are distinct letters among \<^verbatim>\<open>g\<close>, \<^verbatim>\<open>i\<close> and \<^verbatim>\<open>m\<close>.
\<close>

type_synonym engine = "string \<Rightarrow> string \<Rightarrow> bool"

definition syntax_characters :: "char list" where
  "syntax_characters = ''^$.*+?()[]{}|'' @ [CHR 0x5C]"

fun simple_pattern :: "string \<Rightarrow> bool"
  and after_atom :: "string \<Rightarrow> bool"
where
  "simple_pattern [] = True"
| "simple_pattern (c # cs) =
     (if c = CHR 0x5C then
        (case cs of
           [] \<Rightarrow> False
         | d # ds \<Rightarrow> d \<in> set regexp_specials \<and> after_atom ds)
      else if c = CHR ''^'' \<or> c = CHR ''$'' then simple_pattern cs
      else if c = CHR ''.'' \<or> c \<notin> set syntax_characters then after_atom cs
      else False)"
| "after_atom [] = True"
| "after_atom (c # cs) =
     (if c \<in> set ''*+?'' then simple_pattern cs else simple_pattern (c # cs))"

definition simple_flags :: "string \<Rightarrow> bool" where
  "simple_flags flags = (distinct flags \<and> set flags \<subseteq> set ''gim'')"

definition new_RegExp :: "engine \<Rightarrow> string \<Rightarrow> string \<Rightarrow> error + jsval" where
  "new_RegExp engine pattern flags =
     (if (simple_pattern pattern \<and> simple_flags flags) \<or> engine pattern flags
      then Inr (JRegExp pattern flags)
      else Inl SyntaxError)"

text \<open>
  An engine that accepts nothing beyond the fixed part. It stands for the engine in the
  evaluations at concrete inputs below; where such an evaluation returns a regular
  expression, the pattern and flags are simple and every engine returns the same.
\<close>

definition strict_engine :: engine where
  "strict_engine pattern flags = False"

text \<open>The object \<^verbatim>\<open>{ '$regex' : new RegExp(pattern, flags) }\<close>.\<close>

definition regex_clause :: "engine \<Rightarrow> string \<Rightarrow> string \<Rightarrow> error + jsval" where
  "regex_clause engine pattern flags =
     (case new_RegExp engine pattern flags of
        Inl e \<Rightarrow> Inl e
      | Inr r \<Rightarrow> Inr (JObj [(''$regex'', r)]))"

text \<open>
  \<^verbatim>\<open>processModifier\<close>. The \<^verbatim>\<open>contains\<close> branch calls \<^verbatim>\<open>value.replace\<close>, which only a
  string has: any other value throws. The \<^verbatim>\<open>regex\<close> branch calls \<^verbatim>\<open>value.indexOf('/')\<close>,
  which strings and arrays have; an array whose first element is the string \<^verbatim>\<open>/\<close> then
  fails at \<^verbatim>\<open>value.split\<close>, any other array is converted to a string by the \<^verbatim>\<open>RegExp\<close>
  constructor. An unknown modifier returns the value as it is.
\<close>

fun processModifier :: "engine \<Rightarrow> string \<Rightarrow> jsval \<Rightarrow> error + jsval" where
  "processModifier engine modifier v =
     (if modifier = ''contains'' then
        (case v of
           JStr s \<Rightarrow> regex_clause engine (escapeRegExp s) []
         | _ \<Rightarrow> Inl TypeError)
      else if modifier = ''regex'' then
        (case v of
           JStr s \<Rightarrow>
             (if take 1 s = ''/'' then
                (let parts = split_on CHR ''/'' s;
                     flags = (if 2 < length parts \<and> parts ! 2 \<noteq> [] then parts ! 2 else []);
                     pattern = parts ! 1
                 in regex_clause engine pattern flags)
              else regex_clause engine s [])
         | JArr xs \<Rightarrow>
             (if take 1 xs = [JStr ''/''] then Inl TypeError
              else regex_clause engine (js_toString (JArr xs)) [])
         | _ \<Rightarrow> Inl TypeError)
      else Inr v)"

section \<open>The query compiler\<close>

text \<open>
  \<^verbatim>\<open>buildQueryFromParams\<close> rewrites its argument in place while \<^verbatim>\<open>_.each\<close> walks it, and
  returns it. The model returns the content the argument has afterwards (or the exception).
  For an object, \<^verbatim>\<open>_.each\<close> walks the keys the object had when the walk began and reads
  each value from the object as it is at that moment, so \<open>each_object\<close> carries the list of
  keys still to visit and the current content. For an array the callback gets the numeric
  index as key, which takes the \<^verbatim>\<open>Number(key) === key\<close> branch. A regular expression has
  no enumerable property and is returned as it is.

  \<open>resolve_modifier\<close> is the block guarded by \<^verbatim>\<open>Number(key) !== key\<close>: it yields the key,
  the value and the object content after the block. The path \<^verbatim>\<open>field\<close> is computed before the
  block, from the key as it was sent.
\<close>

definition field_path :: "string \<Rightarrow> string \<Rightarrow> string" where
  "field_path context key = (if context \<noteq> [] then join_with ''.'' [context, key] else key)"

definition resolve_modifier ::
  "engine \<Rightarrow> config \<Rightarrow> string \<Rightarrow> jsval \<Rightarrow> (string \<times> jsval) list
     \<Rightarrow> error + (string \<times> jsval \<times> (string \<times> jsval) list)" where
  "resolve_modifier engine cfg key v ps =
     (let modifierKey = split_on CHR ''.'' key;
          modifier = last modifierKey
      in if modifier \<in> set (fieldModifiers cfg) then
           (case processModifier engine modifier v of
              Inl e \<Rightarrow> Inl e
            | Inr v' \<Rightarrow>
                (let key' = join_with ''.'' (butlast modifierKey)
                 in Inr (key', v', obj_set key' v' (obj_delete key ps))))
         else Inr (key, v, ps))"

function (sequential)
  buildQueryFromParams :: "engine \<Rightarrow> config \<Rightarrow> string list \<Rightarrow> string \<Rightarrow> jsval \<Rightarrow> error + jsval"
  and each_object :: "engine \<Rightarrow> config \<Rightarrow> string list \<Rightarrow> string \<Rightarrow> string list
        \<Rightarrow> (string \<times> jsval) list \<Rightarrow> error + (string \<times> jsval) list"
  and each_array :: "engine \<Rightarrow> config \<Rightarrow> string list \<Rightarrow> string \<Rightarrow> jsval list \<Rightarrow> error + jsval list"
where
  "buildQueryFromParams engine cfg flds context (JObj ps) =
     (case each_object engine cfg flds context (map fst ps) ps of
        Inl e \<Rightarrow> Inl e
      | Inr ps' \<Rightarrow> Inr (JObj ps'))"
| "buildQueryFromParams engine cfg flds context (JArr xs) =
     (case each_array engine cfg flds context xs of
        Inl e \<Rightarrow> Inl e
      | Inr xs' \<Rightarrow> Inr (JArr xs'))"
| "buildQueryFromParams engine cfg flds context params = Inr params"
| "each_object engine cfg flds context [] ps = Inr ps"
| "each_object engine cfg flds context (k # ks) ps =
     (case resolve_modifier engine cfg k (obj_get ps k) ps of
        Inl e \<Rightarrow> Inl e
      | Inr (key, v, ps1) \<Rightarrow>
          (if typeof_object v then
             (case buildQueryFromParams engine cfg flds
                     (if key \<in> set (queryOperatorIgnore cfg) then context
                      else field_path context k) v of
                Inl e \<Rightarrow> Inl e
              | Inr r \<Rightarrow> each_object engine cfg flds context ks (obj_set key r ps1))
           else if field_path context k \<notin> set flds \<and> key \<notin> set (queryOperatorIgnore cfg)
             then each_object engine cfg flds context ks (obj_delete key ps1)
           else each_object engine cfg flds context ks ps1))"
| "each_array engine cfg flds context [] = Inr []"
| "each_array engine cfg flds context (x # xs) =
     (case buildQueryFromParams engine cfg flds context x of
        Inl e \<Rightarrow> Inl e
      | Inr y \<Rightarrow>
          (case each_array engine cfg flds context xs of
             Inl e \<Rightarrow> Inl e
           | Inr ys \<Rightarrow> Inr (y # ys)))"
  by pat_completeness auto

text \<open>
  Termination. The value visited under a key is read from the object as rewritten so far,
  so the argument of a recursive call may be the result of an earlier one. The measure is
  the nesting depth, with a string counted as deep enough to hold the directive a modifier
  puts in its place; compiling never increases it.
\<close>

fun max_list :: "nat list \<Rightarrow> nat" where
  "max_list [] = 0"
| "max_list (x # xs) = max x (max_list xs)"

fun weight :: "jsval \<Rightarrow> nat" where
  "weight (JStr s) = 2"
| "weight (JArr xs) = Suc (max_list (map weight xs))"
| "weight (JObj ps) = Suc (max_list (map (\<lambda>p. weight (snd p)) ps))"
| "weight v = 0"

abbreviation obj_weight :: "(string \<times> jsval) list \<Rightarrow> nat" where
  "obj_weight ps \<equiv> max_list (map (\<lambda>p. weight (snd p)) ps)"

lemma max_list_ge: "x \<in> set xs \<Longrightarrow> x \<le> max_list xs"
  by (induction xs) auto

lemma obj_get_weight: "weight (obj_get ps k) \<le> obj_weight ps"
proof (cases "map_of ps k")
  case None
  then show ?thesis by (simp add: obj_get_def)
next
  case (Some v)
  then have "(k, v) \<in> set ps" by (rule map_of_SomeD)
  then have "weight v \<in> set (map (\<lambda>p. weight (snd p)) ps)" by force
  then show ?thesis using Some by (simp add: obj_get_def max_list_ge)
qed

lemma obj_set_weight: "obj_weight (obj_set k v ps) \<le> max (weight v) (obj_weight ps)"
  by (induction ps) auto

lemma obj_delete_weight: "obj_weight (obj_delete k ps) \<le> obj_weight ps"
  by (induction ps) (auto simp: obj_delete_def)

lemma regex_clause_weight: "regex_clause engine p f = Inr v \<Longrightarrow> weight v = 1"
  by (auto simp: regex_clause_def new_RegExp_def split: if_splits)

lemma processModifier_weight: "processModifier engine m v = Inr v' \<Longrightarrow> weight v' \<le> weight v"
  by (auto simp: Let_def split: if_splits jsval.splits dest!: regex_clause_weight)

declare processModifier.simps [simp del]

lemma resolve_modifier_cases:
  assumes "resolve_modifier engine cfg k v0 ps = Inr (key, v, ps1)"
  obtains (plain) "last (split_on CHR ''.'' k) \<notin> set (fieldModifiers cfg)"
      "key = k" "v = v0" "ps1 = ps"
    | (modified) "last (split_on CHR ''.'' k) \<in> set (fieldModifiers cfg)"
      "processModifier engine (last (split_on CHR ''.'' k)) v0 = Inr v"
      "key = join_with ''.'' (butlast (split_on CHR ''.'' k))"
      "ps1 = obj_set key v (obj_delete k ps)"
  using assms by (auto simp: resolve_modifier_def Let_def split: if_splits sum.splits)

lemma resolve_modifier_weight:
  assumes "resolve_modifier engine cfg k (obj_get ps k) ps = Inr (key, v, ps1)"
  shows "weight v \<le> obj_weight ps" and "obj_weight ps1 \<le> obj_weight ps"
proof -
  have g: "weight (obj_get ps k) \<le> obj_weight ps" by (rule obj_get_weight)
  from assms have "weight v \<le> obj_weight ps \<and> obj_weight ps1 \<le> obj_weight ps"
  proof (cases rule: resolve_modifier_cases)
    case plain
    with g show ?thesis by simp
  next
    case modified
    have v: "weight v \<le> obj_weight ps" using processModifier_weight[OF modified(2)] g by simp
    moreover have "obj_weight (obj_delete k ps) \<le> obj_weight ps" by (rule obj_delete_weight)
    moreover have "obj_weight ps1 \<le> max (weight v) (obj_weight (obj_delete k ps))"
      unfolding modified(4) by (rule obj_set_weight)
    ultimately show ?thesis by simp
  qed
  then show "weight v \<le> obj_weight ps" and "obj_weight ps1 \<le> obj_weight ps" by simp_all
qed

lemma compile_weight_partial:
  "buildQueryFromParams_each_object_each_array_dom (Inl (engine, cfg, flds, ctx, params)) \<Longrightarrow>
     buildQueryFromParams engine cfg flds ctx params = Inr r \<Longrightarrow> weight r \<le> weight params"
  "buildQueryFromParams_each_object_each_array_dom (Inr (Inl (engine, cfg, flds, ctx, ks, ps))) \<Longrightarrow>
     each_object engine cfg flds ctx ks ps = Inr ps' \<Longrightarrow> obj_weight ps' \<le> obj_weight ps"
  "buildQueryFromParams_each_object_each_array_dom (Inr (Inr (engine, cfg, flds, ctx, xs))) \<Longrightarrow>
     each_array engine cfg flds ctx xs = Inr ys \<Longrightarrow> max_list (map weight ys) \<le> max_list (map weight xs)"
proof (induction engine cfg flds ctx params and engine cfg flds ctx ks ps and engine cfg flds ctx xs
        arbitrary: r and ps' and ys
        rule: buildQueryFromParams_each_object_each_array.pinduct)
  case (1 engine cfg flds ctx ps)
  then show ?case
    by (auto simp: buildQueryFromParams.psimps split: sum.splits)
next
  case (2 engine cfg flds ctx xs)
  then show ?case
    by (auto simp: buildQueryFromParams.psimps split: sum.splits)
next
  case (4 engine cfg flds ctx ps)
  then show ?case by (simp add: each_object.psimps)
next
  case (5 engine cfg flds ctx k ks ps)
  from "5.prems" "5.hyps" obtain key v ps1 where
    rm: "resolve_modifier engine cfg k (obj_get ps k) ps = Inr (key, v, ps1)"
    by (auto simp: each_object.psimps split: sum.splits)
  note w = resolve_modifier_weight[OF rm]
  show ?case
  proof (cases "typeof_object v")
    case True
    with "5.prems" "5.hyps" rm obtain r where
      c: "buildQueryFromParams engine cfg flds
            (if key \<in> set (queryOperatorIgnore cfg) then ctx else field_path ctx k) v = Inr r"
      and e: "each_object engine cfg flds ctx ks (obj_set key r ps1) = Inr ps'"
      by (auto simp: each_object.psimps split: sum.splits)
    have "weight r \<le> weight v" using "5.IH"(1)[OF rm refl refl True c] .
    moreover have "obj_weight ps' \<le> obj_weight (obj_set key r ps1)"
      using "5.IH"(2)[OF rm refl refl True c e] .
    moreover have "obj_weight (obj_set key r ps1) \<le> max (weight r) (obj_weight ps1)"
      by (rule obj_set_weight)
    ultimately show ?thesis using w by simp
  next
    case False
    show ?thesis
    proof (cases "field_path ctx k \<notin> set flds \<and> key \<notin> set (queryOperatorIgnore cfg)")
      case True
      with False "5.prems" "5.hyps" rm have
        e: "each_object engine cfg flds ctx ks (obj_delete key ps1) = Inr ps'"
        by (auto simp: each_object.psimps split: sum.splits)
      have "obj_weight ps' \<le> obj_weight (obj_delete key ps1)"
        using "5.IH"(3)[OF rm refl refl False True e] .
      moreover have "obj_weight (obj_delete key ps1) \<le> obj_weight ps1" by (rule obj_delete_weight)
      ultimately show ?thesis using w by simp
    next
      case nd: False
      with False "5.prems" "5.hyps" rm have
        e: "each_object engine cfg flds ctx ks ps1 = Inr ps'"
        by (auto simp: each_object.psimps split: sum.splits)
      have "obj_weight ps' \<le> obj_weight ps1"
        using "5.IH"(4)[OF rm refl refl False nd e] .
      then show ?thesis using w by simp
    qed
  qed
next
  case (6 engine cfg flds ctx)
  then show ?case by (simp add: each_array.psimps)
next
  case (7 engine cfg flds ctx x xs)
  from "7.prems" "7.hyps" obtain y ys' where
    c: "buildQueryFromParams engine cfg flds ctx x = Inr y"
    and e: "each_array engine cfg flds ctx xs = Inr ys'" and ys: "ys = y # ys'"
    by (auto simp: each_array.psimps split: sum.splits)
  have "weight y \<le> weight x" using "7.IH"(1)[OF c] .
  moreover have "max_list (map weight ys') \<le> max_list (map weight xs)"
    using "7.IH"(2)[OF c e] .
  ultimately show ?case using ys by (auto simp: max_def)
qed (auto simp: buildQueryFromParams.psimps)

lemma each_object_set_weight:
  assumes "resolve_modifier engine cfg k (obj_get ps k) ps = Inr (key, v, ps1)" and "weight r \<le> weight v"
  shows "obj_weight (obj_set key r ps1) \<le> obj_weight ps"
proof -
  have "obj_weight (obj_set key r ps1) \<le> max (weight r) (obj_weight ps1)" by (rule obj_set_weight)
  then show ?thesis using resolve_modifier_weight[OF assms(1)] assms(2) by simp
qed

lemma each_object_delete_weight:
  assumes "resolve_modifier engine cfg k (obj_get ps k) ps = Inr (key, v, ps1)"
  shows "obj_weight (obj_delete key ps1) \<le> obj_weight ps"
proof -
  have "obj_weight (obj_delete key ps1) \<le> obj_weight ps1" by (rule obj_delete_weight)
  then show ?thesis using resolve_modifier_weight(2)[OF assms] by simp
qed

termination buildQueryFromParams
proof (relation "inv_image (less_than <*lex*> less_than <*lex*> less_than)
    (\<lambda>a. case a of
       Inl (engine, cfg, flds, ctx, params) \<Rightarrow> (weight params, 1::nat, 0::nat)
     | Inr (Inl (engine, cfg, flds, ctx, ks, ps)) \<Rightarrow> (Suc (obj_weight ps), 0, length ks)
     | Inr (Inr (engine, cfg, flds, ctx, xs)) \<Rightarrow> (Suc (max_list (map weight xs)), 0, length xs))",
    goal_cases)
  case 1
  show ?case by (intro wf_inv_image wf_lex_prod wf_less_than)
next
  case 2
  then show ?case by simp
next
  case 3
  then show ?case by simp
next
  case 4
  then show ?case by (auto simp: less_Suc_eq_le dest: resolve_modifier_weight(1))
next
  case 5
  then show ?case
    by (auto simp: le_less [symmetric] dest!: compile_weight_partial(1) intro: each_object_set_weight)
next
  case 6
  then show ?case by (auto simp: le_less [symmetric] intro: each_object_delete_weight)
next
  case 7
  then show ?case by (auto simp: le_less [symmetric] dest: resolve_modifier_weight(2))
next
  case 8
  then show ?case by (simp add: less_Suc_eq_le)
next
  case 9
  then show ?case by (simp add: le_less [symmetric])
qed

lemmas compile_simps = buildQueryFromParams.simps each_object.simps each_array.simps

declare compile_simps [simp del]

section \<open>Pagination meta data\<close>

text \<open>
  \<^verbatim>\<open>parseInt(v, 10)\<close>: the value as a string, leading white space skipped, an optional sign,
  then the longest run of decimal digits; \<open>None\<close> stands for \<^verbatim>\<open>NaN\<close>, the result when there
  is no digit. A comparison with \<^verbatim>\<open>NaN\<close> is false. White space is the white space of ASCII.
\<close>

definition is_space :: "char \<Rightarrow> bool" where
  "is_space c = (c \<in> set [CHR '' '', CHR 0x09, CHR 0x0A, CHR 0x0B, CHR 0x0C, CHR 0x0D])"

definition is_digit :: "char \<Rightarrow> bool" where
  "is_digit c = (c \<in> set ''0123456789'')"

definition digit_value :: "char \<Rightarrow> nat" where
  "digit_value c = of_char c - 48"

definition parse_digits :: "string \<Rightarrow> nat" where
  "parse_digits ds = foldl (\<lambda>a c. 10 * a + digit_value c) 0 ds"

definition parseInt :: "jsval \<Rightarrow> int option" where
  "parseInt v =
     (let s = dropWhile is_space (js_toString v);
          negative = (take 1 s = ''-'');
          rest = (if take 1 s = ''-'' \<or> take 1 s = ''+'' then drop 1 s else s);
          ds = takeWhile is_digit rest
      in if ds = [] then None
         else Some ((if negative then - 1 else 1) * int (parse_digits ds)))"

text \<open>
  A link is the string \<^verbatim>\<open>path + '?' + querystring.stringify(obj)\<close> when a path is given
  (REST), and the object itself when \<^verbatim>\<open>path\<close> is \<^verbatim>\<open>false\<close> (sockets). Before it is set, a
  link is the empty string, respectively the empty object. \<^verbatim>\<open>querystring.stringify\<close> belongs
  to the platform and is a parameter here.
\<close>

datatype link = LinkString string | LinkObject "(string \<times> jsval) list"

record links =
  link_first :: link
  link_prev :: link
  link_next :: link
  link_last :: link

record meta =
  meta_documents :: jsval
  meta_pages :: int
  meta_limit :: "int option"
  meta_offset :: "int option"
  meta_links :: links

definition path_given :: "string option \<Rightarrow> bool" where
  "path_given path = (case path of None \<Rightarrow> False | Some p \<Rightarrow> p \<noteq> [])"

definition empty_link :: "string option \<Rightarrow> link" where
  "empty_link path = (if path_given path then LinkString [] else LinkObject [])"

definition make_link ::
  "((string \<times> jsval) list \<Rightarrow> string) \<Rightarrow> string option \<Rightarrow> (string \<times> jsval) list \<Rightarrow> link" where
  "make_link stringify path obj =
     (case path of
        None \<Rightarrow> LinkObject obj
      | Some p \<Rightarrow> if p \<noteq> [] then LinkString (p @ ''?'' @ stringify obj) else LinkObject obj)"

definition requested_limit :: "config \<Rightarrow> (string \<times> jsval) list \<Rightarrow> int option" where
  "requested_limit cfg params = parseInt (js_or (obj_get params ''limit'') (queryLimit cfg))"

definition requested_offset :: "config \<Rightarrow> (string \<times> jsval) list \<Rightarrow> int option" where
  "requested_offset cfg params = parseInt (js_or (obj_get params ''offset'') (queryOffset cfg))"

definition requested_page :: "(string \<times> jsval) list \<Rightarrow> int option" where
  "requested_page params = parseInt (js_or (obj_get params ''page'') (JNum 1))"

text \<open>
  \<^verbatim>\<open>crud.buildResultsMeta(path, params, query)\<close>. The count of the documents that match the
  query comes from the store: \<open>Inr count\<close> when \<^verbatim>\<open>crud.count\<close> fulfils, \<open>Inl error\<close> when it
  rejects. The result is how the returned promise settles: \<open>Inr meta\<close> when it resolves with
  \<open>meta\<close>, \<open>Inl e\<close> when it rejects. Both continuations call \<^verbatim>\<open>deferred.resolve(meta)\<close>.
\<close>

definition buildResultsMeta ::
  "config \<Rightarrow> ((string \<times> jsval) list \<Rightarrow> string) \<Rightarrow> string option \<Rightarrow> (string \<times> jsval) list
     \<Rightarrow> jsval + nat \<Rightarrow> jsval + meta" where
  "buildResultsMeta cfg stringify path params counted =
     (let limit = requested_limit cfg params;
          offset = requested_offset cfg params;
          page = requested_page params;
          meta0 = \<lparr>meta_documents = JNum 0, meta_pages = 0, meta_limit = limit, meta_offset = offset,
                   meta_links = \<lparr>link_first = empty_link path, link_prev = empty_link path,
                                  link_next = empty_link path, link_last = empty_link path\<rparr>\<rparr>;
          first = obj_set ''page'' (JNum 1) params;
          links1 = (meta_links meta0)\<lparr>link_first := make_link stringify path first\<rparr>;
          links2 = (case page of
                      Some p \<Rightarrow>
                        if p > 1
                        then links1\<lparr>link_prev :=
                               make_link stringify path (obj_set ''page'' (JNum (p - 1)) params)\<rparr>
                        else links1
                    | None \<Rightarrow> links1)
      in case counted of
           Inr count \<Rightarrow>
             (let pages = (case limit of
                             Some l \<Rightarrow>
                               if count \<noteq> 0 \<and> l > 0 then \<lceil>real count / real_of_int l\<rceil> else 1
                           | None \<Rightarrow> 1);
                  links3 = (case (limit, page) of
                              (Some l, Some p) \<Rightarrow>
                                if l > 0 \<and> int count > p * l
                                then links2\<lparr>link_next :=
                                       make_link stringify path (obj_set ''page'' (JNum (p + 1)) params)\<rparr>
                                else links2
                            | _ \<Rightarrow> links2);
                  links4 = links3\<lparr>link_last :=
                             make_link stringify path (obj_set ''page'' (JNum pages) params)\<rparr>
              in Inr (meta0\<lparr>meta_documents := JNum (int count), meta_pages := pages,
                             meta_links := links4\<rparr>))
         | Inl error \<Rightarrow>
             Inr (meta0\<lparr>meta_documents := error, meta_links := links2\<rparr>))"

section \<open>Socket handlers\<close>

text \<open>
  An emitted event is a channel name and a payload. Each of the handlers \<^verbatim>\<open>saveDocument\<close>,
  \<^verbatim>\<open>findDocuments\<close>, \<^verbatim>\<open>updateDocument\<close> and \<^verbatim>\<open>deleteDocuments\<close> ends in a call of \<^verbatim>\<open>then\<close>
  with two continuations on the promise of a store operation. \<open>saveDocument_then\<close> and its
  three companions are these pairs: \<open>Inr\<close> is the value the promise fulfils with, \<open>Inl\<close> the
  error it rejects with. The channel names are the concatenations the source writes.
\<close>

type_synonym event = "string \<times> jsval"

definition saveDocument_then :: "string \<Rightarrow> jsval + jsval \<Rightarrow> event" where
  "saveDocument_then collection outcome =
     (case outcome of
        Inr document \<Rightarrow>
          (''api.'' @ collection @ ''.save.response'',
           JObj [(''message'', JStr ''Resource created''), (''document'', document)])
      | Inl error \<Rightarrow>
          (''api.'' @ collection @ ''.save.error'', JObj [(''message'', error)]))"

text \<open>
  In the \<^verbatim>\<open>find\<close> handler the fulfilment continuation waits for the meta data, which always
  arrives, and then emits; \<open>meta\<close> is that meta data as a value.
\<close>

definition findDocuments_then :: "string \<Rightarrow> jsval \<Rightarrow> jsval + jsval \<Rightarrow> event" where
  "findDocuments_then collection meta outcome =
     (case outcome of
        Inr documents \<Rightarrow>
          (''api.'' @ collection @ ''.find.response'',
           JObj [(''documents'', documents), (''meta'', meta)])
      | Inl error \<Rightarrow>
          (''api.'' @ collection @ ''.find.error'', JObj [(''message'', error)]))"

definition updateDocument_then :: "string \<Rightarrow> jsval + jsval \<Rightarrow> event" where
  "updateDocument_then collection outcome =
     (case outcome of
        Inr update \<Rightarrow>
          (if truthy update
           then (''api.'' @ collection @ ''.update.response'',
                 JObj [(''message'', JStr ''Resources updated''), (''update'', update)])
           else (''api.'' @ collection @ ''.update.response'',
                 JObj [(''message'', JStr ''Resource not found'')]))
      | Inl error \<Rightarrow>
          (''api.'' @ collection @ ''.update.error'', JObj [(''message'', error)]))"

definition deleteDocuments_then :: "string \<Rightarrow> jsval + jsval \<Rightarrow> event" where
  "deleteDocuments_then collection outcome =
     (case outcome of
        Inr removed \<Rightarrow>
          (''api.'' @ collection @ ''.update.response'',
           JObj [(''message'', JStr ''Resources deleted''), (''removed'', removed)])
      | Inl error \<Rightarrow>
          (''api.'' @ collection @ ''.update.response'', JObj [(''message'', error)]))"

text \<open>
  The \<^verbatim>\<open>save\<close> handler as a whole. It hands the payload object itself to the compiler,
  which rewrites that object in place and returns it, so the caller's payload has the
  compiled content afterwards. \<open>crud_save\<close> is how the store settles the save of a document.
  The result is the exception, or the payload as the caller finds it after the call together
  with the event emitted.
\<close>

definition saveDocument ::
  "engine \<Rightarrow> config \<Rightarrow> string list \<Rightarrow> string \<Rightarrow> (jsval \<Rightarrow> jsval + jsval) \<Rightarrow> jsval \<Rightarrow> error + (jsval \<times> event)" where
  "saveDocument engine cfg flds collection crud_save payload =
     (let params = js_or payload (JObj [])
      in case buildQueryFromParams engine cfg flds [] params of
           Inl e \<Rightarrow> Inl e
         | Inr document \<Rightarrow>
             Inr (if truthy payload then document else payload,
                  saveDocument_then collection (crud_save document)))"

section \<open>REST: creating a document\<close>

text \<open>
  \<^verbatim>\<open>_.extend(dest, src)\<close> copies every property of \<open>src\<close> into \<open>dest\<close> itself and returns
  \<open>dest\<close>. \<^verbatim>\<open>createDocument\<close> extends \<^verbatim>\<open>req.query\<close> with \<^verbatim>\<open>req.body\<close> and compiles the
  result in place. The response is a status code and a JSON body. The result is the
  content of \<^verbatim>\<open>req.query\<close> after the call and the response.
\<close>

definition js_extend :: "(string \<times> jsval) list \<Rightarrow> (string \<times> jsval) list \<Rightarrow> (string \<times> jsval) list" where
  "js_extend dest src = foldl (\<lambda>d p. obj_set (fst p) (snd p) d) dest src"

definition js_prop :: "jsval \<Rightarrow> string \<Rightarrow> jsval" where
  "js_prop v k = (case v of JObj ps \<Rightarrow> obj_get ps k | _ \<Rightarrow> JUndefined)"

definition serveError :: "jsval \<Rightarrow> nat \<times> jsval" where
  "serveError error =
     (500, JObj [(''message'', js_or (js_prop (js_or error (JObj [])) ''message'') (JStr ''Unknown error.''))])"

definition createDocument ::
  "engine \<Rightarrow> config \<Rightarrow> string list \<Rightarrow> (jsval \<Rightarrow> jsval + jsval) \<Rightarrow> (string \<times> jsval) list
     \<Rightarrow> (string \<times> jsval) list option \<Rightarrow> error + (jsval \<times> (nat \<times> jsval))" where
  "createDocument engine cfg flds crud_create req_query req_body =
     (let params = js_extend req_query (case req_body of None \<Rightarrow> [] | Some b \<Rightarrow> b)
      in case buildQueryFromParams engine cfg flds [] (JObj params) of
           Inl e \<Rightarrow> Inl e
         | Inr document \<Rightarrow>
             Inr (document,
                  case crud_create document of
                    Inr created \<Rightarrow>
                      (201, JObj [(''message'', JStr ''Resource created''), (''document'', created)])
                  | Inl error \<Rightarrow> serveError error))"

section \<open>Binding a model\<close>

text \<open>
  Every bind call begins with \<^verbatim>\<open>config = _.extend(exports.config, config || {})\<close>: the
  overrides are copied into the module's default configuration object, and that object is
  the configuration of the binding. An override object names the settings it changes.
  The first component of a bind call's result is \<^verbatim>\<open>exports.config\<close> after the call, the
  second the configuration the binding's handlers use.
\<close>

record overrides =
  set_baseURL :: "string option"
  set_queryOffset :: "jsval option"
  set_queryLimit :: "jsval option"
  set_querySort :: "jsval option"
  set_schemaFieldIgnore :: "string list option"
  set_queryOperatorIgnore :: "string list option"
  set_fieldModifiers :: "string list option"

definition no_overrides :: overrides where
  "no_overrides = \<lparr>set_baseURL = None, set_queryOffset = None, set_queryLimit = None,
     set_querySort = None, set_schemaFieldIgnore = None, set_queryOperatorIgnore = None,
     set_fieldModifiers = None\<rparr>"

definition or_else :: "'a option \<Rightarrow> 'a \<Rightarrow> 'a" where
  "or_else x d = (case x of None \<Rightarrow> d | Some v \<Rightarrow> v)"

definition extend_config :: "config \<Rightarrow> overrides \<Rightarrow> config" where
  "extend_config c ov = \<lparr>
     baseURL = or_else (set_baseURL ov) (baseURL c),
     queryOffset = or_else (set_queryOffset ov) (queryOffset c),
     queryLimit = or_else (set_queryLimit ov) (queryLimit c),
     querySort = or_else (set_querySort ov) (querySort c),
     schemaFieldIgnore = or_else (set_schemaFieldIgnore ov) (schemaFieldIgnore c),
     queryOperatorIgnore = or_else (set_queryOperatorIgnore ov) (queryOperatorIgnore c),
     fieldModifiers = or_else (set_fieldModifiers ov) (fieldModifiers c)\<rparr>"

definition serveSockets :: "config \<Rightarrow> overrides option \<Rightarrow> config \<times> config" where
  "serveSockets exports config =
     (let config = extend_config exports (or_else config no_overrides) in (config, config))"

definition serveRoutes :: "config \<Rightarrow> overrides option \<Rightarrow> config \<times> config" where
  "serveRoutes exports config =
     (let config = extend_config exports (or_else config no_overrides) in (config, config))"

definition serveCrud :: "config \<Rightarrow> overrides option \<Rightarrow> config \<times> config" where
  "serveCrud exports config =
     (let config = extend_config exports (or_else config no_overrides) in (config, config))"

text \<open>Naming a setting, to speak of all seven at once.\<close>

datatype setting =
  BaseURL | QueryOffset | QueryLimit | QuerySort | SchemaFieldIgnore | QueryOperatorIgnore
  | FieldModifiers

datatype setting_value = TextValue string | JsValue jsval | NamesValue "string list"

fun config_get :: "config \<Rightarrow> setting \<Rightarrow> setting_value" where
  "config_get c BaseURL = TextValue (baseURL c)"
| "config_get c QueryOffset = JsValue (queryOffset c)"
| "config_get c QueryLimit = JsValue (queryLimit c)"
| "config_get c QuerySort = JsValue (querySort c)"
| "config_get c SchemaFieldIgnore = NamesValue (schemaFieldIgnore c)"
| "config_get c QueryOperatorIgnore = NamesValue (queryOperatorIgnore c)"
| "config_get c FieldModifiers = NamesValue (fieldModifiers c)"

fun override_get :: "overrides option \<Rightarrow> setting \<Rightarrow> setting_value option" where
  "override_get None s = None"
| "override_get (Some ov) BaseURL = map_option TextValue (set_baseURL ov)"
| "override_get (Some ov) QueryOffset = map_option JsValue (set_queryOffset ov)"
| "override_get (Some ov) QueryLimit = map_option JsValue (set_queryLimit ov)"
| "override_get (Some ov) QuerySort = map_option JsValue (set_querySort ov)"
| "override_get (Some ov) SchemaFieldIgnore = map_option NamesValue (set_schemaFieldIgnore ov)"
| "override_get (Some ov) QueryOperatorIgnore = map_option NamesValue (set_queryOperatorIgnore ov)"
| "override_get (Some ov) FieldModifiers = map_option NamesValue (set_fieldModifiers ov)"

section \<open>Predicates for stating the properties\<close>

subsection \<open>Patterns that are literals\<close>

text \<open>
  The reading of a pattern as a literal, after the regular expression syntax of the language:
  an ordinary character matches itself, and a backslash before a punctuation character
  makes that character match itself. \<open>literal_of_pattern p\<close> is the text that \<open>p\<close> matches
  when \<open>p\<close> is built from these two forms only, and \<open>None\<close> when \<open>p\<close> uses any other syntax
  (an anchor, a quantifier, a group, a class, an alternative).
\<close>

fun literal_of_pattern :: "string \<Rightarrow> string option" where
  "literal_of_pattern [] = Some []"
| "literal_of_pattern (c # cs) =
     (if c = CHR 0x5C then
        (case cs of
           [] \<Rightarrow> None
         | d # ds \<Rightarrow>
             if d \<in> set regexp_specials then map_option ((#) d) (literal_of_pattern ds)
             else None)
      else if c \<in> set syntax_characters then None
      else map_option ((#) c) (literal_of_pattern cs))"

subsection \<open>Plain data, filtered data, modifier keys\<close>

text \<open>
  Plain data. No object has two properties of the same name, as in any object of the
  language. No object has a numeric \<^verbatim>\<open>length\<close> property: a request can send one, and the
  library's \<^verbatim>\<open>_.each\<close> then takes the object for an array and walks indices instead of keys,
  which the model of \<^verbatim>\<open>_.each\<close> above leaves out. The properties stated for plain data say
  nothing of such an object.
\<close>

definition numeric_length :: "(string \<times> jsval) list \<Rightarrow> bool" where
  "numeric_length ps = (case map_of ps ''length'' of Some (JNum n) \<Rightarrow> True | _ \<Rightarrow> False)"

fun plain_data :: "jsval \<Rightarrow> bool"
  and plain_entries :: "(string \<times> jsval) list \<Rightarrow> bool"
  and plain_items :: "jsval list \<Rightarrow> bool"
where
  "plain_data (JObj ps) =
     (distinct (map fst ps)
      \<and> \<not> numeric_length ps
      \<and> plain_entries ps)"
| "plain_data (JArr xs) = plain_items xs"
| "plain_data v = True"
| "plain_entries [] = True"
| "plain_entries (p # ps) = (plain_data (snd p) \<and> plain_entries ps)"
| "plain_items [] = True"
| "plain_items (x # xs) = (plain_data x \<and> plain_items xs)"

text \<open>
  What the compiler guarantees about its output. An entry whose value is not an object (in
  the sense of \<^verbatim>\<open>typeof\<close>) has a whitelisted path or an operator name as its key. An entry
  whose value is an object is looked into, under the context the compiler gives it; its own
  key is not examined. The elements of an array are looked into under the array's context;
  an element that is not an object is not an entry and nothing is asked of it.
\<close>

definition entry_filtered :: "config \<Rightarrow> string list \<Rightarrow> string \<Rightarrow> string \<Rightarrow> bool" where
  "entry_filtered cfg flds context key =
     (field_path context key \<in> set flds \<or> key \<in> set (queryOperatorIgnore cfg))"

fun filtered :: "config \<Rightarrow> string list \<Rightarrow> string \<Rightarrow> jsval \<Rightarrow> bool"
  and filtered_entries :: "config \<Rightarrow> string list \<Rightarrow> string \<Rightarrow> (string \<times> jsval) list \<Rightarrow> bool"
  and filtered_items :: "config \<Rightarrow> string list \<Rightarrow> string \<Rightarrow> jsval list \<Rightarrow> bool"
where
  "filtered cfg flds context (JObj ps) = filtered_entries cfg flds context ps"
| "filtered cfg flds context (JArr xs) = filtered_items cfg flds context xs"
| "filtered cfg flds context v = True"
| "filtered_entries cfg flds context [] = True"
| "filtered_entries cfg flds context (p # ps) =
     ((if typeof_object (snd p)
       then filtered cfg flds
              (if fst p \<in> set (queryOperatorIgnore cfg) then context else field_path context (fst p))
              (snd p)
       else entry_filtered cfg flds context (fst p))
      \<and> filtered_entries cfg flds context ps)"
| "filtered_items cfg flds context [] = True"
| "filtered_items cfg flds context (x # xs) =
     (filtered cfg flds context x \<and> filtered_items cfg flds context xs)"

text \<open>
  The parameters without the entries the whitelist refuses: at every depth, an entry whose
  value is not an object (in the sense of \<^verbatim>\<open>typeof\<close>) stays only if its key is a whitelisted
  path in its context or an operator name; an entry whose value is an object stays under
  its key, with its content treated the same way under the context the compiler gives it;
  the elements of an array stay in place, each treated under the array's context, so that
  an element that is not an object stays as it is.
\<close>

fun sanitized :: "config \<Rightarrow> string list \<Rightarrow> string \<Rightarrow> jsval \<Rightarrow> jsval"
  and sanitized_entries ::
    "config \<Rightarrow> string list \<Rightarrow> string \<Rightarrow> (string \<times> jsval) list \<Rightarrow> (string \<times> jsval) list"
  and sanitized_items :: "config \<Rightarrow> string list \<Rightarrow> string \<Rightarrow> jsval list \<Rightarrow> jsval list"
where
  "sanitized cfg flds context (JObj ps) = JObj (sanitized_entries cfg flds context ps)"
| "sanitized cfg flds context (JArr xs) = JArr (sanitized_items cfg flds context xs)"
| "sanitized cfg flds context v = v"
| "sanitized_entries cfg flds context [] = []"
| "sanitized_entries cfg flds context (p # ps) =
     (if typeof_object (snd p)
      then (fst p,
            sanitized cfg flds
              (if fst p \<in> set (queryOperatorIgnore cfg) then context else field_path context (fst p))
              (snd p))
           # sanitized_entries cfg flds context ps
      else if entry_filtered cfg flds context (fst p) then p # sanitized_entries cfg flds context ps
      else sanitized_entries cfg flds context ps)"
| "sanitized_items cfg flds context [] = []"
| "sanitized_items cfg flds context (x # xs) =
     sanitized cfg flds context x # sanitized_items cfg flds context xs"

text \<open>No key, at any depth, whose last dot-separated segment is the name of a modifier.\<close>

definition modifier_key :: "config \<Rightarrow> string \<Rightarrow> bool" where
  "modifier_key cfg key = (last (split_on CHR ''.'' key) \<in> set (fieldModifiers cfg))"

fun no_modifier_keys :: "config \<Rightarrow> jsval \<Rightarrow> bool"
  and no_modifier_entries :: "config \<Rightarrow> (string \<times> jsval) list \<Rightarrow> bool"
  and no_modifier_items :: "config \<Rightarrow> jsval list \<Rightarrow> bool"
where
  "no_modifier_keys cfg (JObj ps) = no_modifier_entries cfg ps"
| "no_modifier_keys cfg (JArr xs) = no_modifier_items cfg xs"
| "no_modifier_keys cfg v = True"
| "no_modifier_entries cfg [] = True"
| "no_modifier_entries cfg (p # ps) =
     (\<not> modifier_key cfg (fst p) \<and> no_modifier_keys cfg (snd p) \<and> no_modifier_entries cfg ps)"
| "no_modifier_items cfg [] = True"
| "no_modifier_items cfg (x # xs) = (no_modifier_keys cfg x \<and> no_modifier_items cfg xs)"

text \<open>The guarantee for one entry of an object.\<close>

definition entry_ok :: "config \<Rightarrow> string list \<Rightarrow> string \<Rightarrow> string \<times> jsval \<Rightarrow> bool" where
  "entry_ok cfg flds context p =
     (if typeof_object (snd p)
      then filtered cfg flds
             (if fst p \<in> set (queryOperatorIgnore cfg) then context else field_path context (fst p))
             (snd p)
      else entry_filtered cfg flds context (fst p))"

text \<open>
  A directive is what a modifier puts in place of a value: an object with the single
  property \<^verbatim>\<open>$regex\<close> holding a regular expression. Data is settled when, at any depth, a
  key whose last segment is a modifier name holds a directive.
\<close>

fun is_directive :: "jsval \<Rightarrow> bool" where
  "is_directive (JObj [(k, JRegExp p f)]) = (k = ''$regex'')"
| "is_directive v = False"

fun settled :: "config \<Rightarrow> jsval \<Rightarrow> bool"
  and settled_entries :: "config \<Rightarrow> (string \<times> jsval) list \<Rightarrow> bool"
  and settled_items :: "config \<Rightarrow> jsval list \<Rightarrow> bool"
where
  "settled cfg (JObj ps) = settled_entries cfg ps"
| "settled cfg (JArr xs) = settled_items cfg xs"
| "settled cfg v = True"
| "settled_entries cfg [] = True"
| "settled_entries cfg (p # ps) =
     ((if modifier_key cfg (fst p) then is_directive (snd p) else True)
      \<and> settled cfg (snd p) \<and> settled_entries cfg ps)"
| "settled_items cfg [] = True"
| "settled_items cfg (x # xs) = (settled cfg x \<and> settled_items cfg xs)"

section \<open>Facts about the default configuration\<close>

lemma fieldModifiers_default: "fieldModifiers exports_config = [''contains'', ''regex'']"
  by (simp add: exports_config_def)

lemma regex_is_operator: "''$regex'' \<in> set (queryOperatorIgnore exports_config)"
  by (simp add: exports_config_def)

lemma email_not_operator: "''email'' \<notin> set (queryOperatorIgnore exports_config)"
  by (simp add: exports_config_def)

lemma split_on_absent: "c \<notin> set s \<Longrightarrow> split_on c s = [s]"
  by (induction s) auto

lemma split_on_first: "c \<notin> set p \<Longrightarrow> split_on c (p @ c # rest) = p # split_on c rest"
  by (induction p) auto

lemma split_on_not_Nil: "split_on c s \<noteq> []"
  by (induction s) (auto split: list.splits)

section \<open>What a modifier produces\<close>

lemma syntax_characters_escaped: "c \<in> set syntax_characters \<Longrightarrow> c \<in> set regexp_specials"
  by (auto simp: syntax_characters_def regexp_specials_def)

lemma literal_of_escaped: "literal_of_pattern (escapeRegExp s) = Some s"
proof (induction s)
  case Nil
  show ?case by (simp add: escapeRegExp_def)
next
  case (Cons c s)
  have step: "escapeRegExp (c # s) =
      (if c \<in> set regexp_specials then [CHR 0x5C, c] else [c]) @ escapeRegExp s"
    by (simp add: escapeRegExp_def)
  show ?case
  proof (cases "c \<in> set regexp_specials")
    case True
    then show ?thesis using Cons.IH by (simp add: step)
  next
    case False
    then have "c \<noteq> CHR 0x5C" by (auto simp: regexp_specials_def)
    moreover have "c \<notin> set syntax_characters" using False syntax_characters_escaped by blast
    ultimately show ?thesis using False Cons.IH by (simp add: step)
  qed
qed

lemma simple_escaped: "simple_pattern (escapeRegExp s) \<and> after_atom (escapeRegExp s)"
proof (induction s)
  case Nil
  show ?case by (simp add: escapeRegExp_def)
next
  case (Cons c s)
  have step: "escapeRegExp (c # s) =
      (if c \<in> set regexp_specials then [CHR 0x5C, c] else [c]) @ escapeRegExp s"
    by (simp add: escapeRegExp_def)
  show ?case
  proof (cases "c \<in> set regexp_specials")
    case True
    then have "simple_pattern (escapeRegExp (c # s))" using Cons.IH by (simp add: step)
    then show ?thesis by (simp add: step True)
  next
    case False
    then have "c \<noteq> CHR 0x5C" "c \<noteq> CHR ''^''" "c \<noteq> CHR ''$''" "c \<notin> set ''*+?''"
      by (auto simp: regexp_specials_def)
    moreover have "c \<notin> set syntax_characters" using False syntax_characters_escaped by blast
    ultimately have "simple_pattern (escapeRegExp (c # s))" using False Cons.IH by (simp add: step)
    then show ?thesis using False \<open>c \<notin> set ''*+?''\<close> by (simp add: step)
  qed
qed

lemma regex_clause_simple:
  "simple_pattern p \<Longrightarrow> simple_flags f \<Longrightarrow>
     regex_clause engine p f = Inr (JObj [(''$regex'', JRegExp p f)])"
  by (simp add: regex_clause_def new_RegExp_def)

lemma contains_directive:
  "processModifier engine ''contains'' (JStr s) = Inr (JObj [(''$regex'', JRegExp (escapeRegExp s) [])])"
  by (simp add: processModifier.simps regex_clause_simple simple_escaped simple_flags_def)

text \<open>
  C6. The \<^verbatim>\<open>regex\<close> modifier reads a value that starts with a slash as
  \<^verbatim>\<open>/pattern/flags\<close>: \<^verbatim>\<open>/ab+c/i\<close> gives the pattern \<^verbatim>\<open>ab+c\<close> with the flag \<^verbatim>\<open>i\<close>, and
  in general the text between the first two slashes is the pattern and the text after the
  second slash, up to a third if there is one, is the flags; without a second slash the
  text after the first is the pattern and there are no flags. A value that does not start
  with a slash is the pattern as a whole, with no flags: \<^verbatim>\<open>plain\<close> gives the pattern
  \<^verbatim>\<open>plain\<close>. The modifier hands that pattern and those flags to the \<^verbatim>\<open>RegExp\<close>
  constructor: the result is the directive holding the regular expression when the pattern
  and flags are simple or the engine accepts them, and a SyntaxError otherwise. The
  \<^verbatim>\<open>contains\<close> modifier escapes the value, so that the pattern it produces reads as the
  literal value; it always returns the directive, sets no flag (the match is case-sensitive)
  and adds no anchor.
\<close>

theorem processModifier_regex_and_contains:
  "processModifier engine ''regex'' (JStr ''/ab+c/i'') = Inr (JObj [(''$regex'', JRegExp ''ab+c'' ''i'')])
   \<and> processModifier engine ''regex'' (JStr ''plain'') = Inr (JObj [(''$regex'', JRegExp ''plain'' [])])
   \<and> (CHR ''/'' \<notin> set p \<longrightarrow>
        processModifier engine ''regex'' (JStr (''/'' @ p)) = regex_clause engine p [])
   \<and> (CHR ''/'' \<notin> set p \<and> CHR ''/'' \<notin> set f \<longrightarrow>
        processModifier engine ''regex'' (JStr (''/'' @ p @ ''/'' @ f)) = regex_clause engine p f
        \<and> processModifier engine ''regex'' (JStr (''/'' @ p @ ''/'' @ f @ ''/'' @ rest)) =
            regex_clause engine p f)
   \<and> (take 1 s \<noteq> ''/'' \<longrightarrow>
        processModifier engine ''regex'' (JStr s) = regex_clause engine s [])
   \<and> regex_clause engine p f =
        (if (simple_pattern p \<and> simple_flags f) \<or> engine p f
         then Inr (JObj [(''$regex'', JRegExp p f)])
         else Inl SyntaxError)
   \<and> processModifier engine ''contains'' (JStr s) = Inr (JObj [(''$regex'', JRegExp (escapeRegExp s) [])])
   \<and> literal_of_pattern (escapeRegExp s) = Some s"
proof -
  have a: "processModifier engine ''regex'' (JStr ''/ab+c/i'') = Inr (JObj [(''$regex'', JRegExp ''ab+c'' ''i'')])"
    by (simp add: processModifier.simps regex_clause_def new_RegExp_def simple_flags_def
        syntax_characters_def)
  have b: "processModifier engine ''regex'' (JStr ''plain'') = Inr (JObj [(''$regex'', JRegExp ''plain'' [])])"
    by (simp add: processModifier.simps regex_clause_def new_RegExp_def simple_flags_def
        syntax_characters_def)
  have c0: "processModifier engine ''regex'' (JStr (''/'' @ p)) = regex_clause engine p []"
    if "CHR ''/'' \<notin> set p"
  proof -
    have "split_on CHR ''/'' (''/'' @ p) = [[], p]"
      using that by (simp add: split_on_absent)
    then show ?thesis by (simp add: processModifier.simps)
  qed
  have c1: "processModifier engine ''regex'' (JStr (''/'' @ p @ ''/'' @ f)) = regex_clause engine p f"
    if "CHR ''/'' \<notin> set p" and "CHR ''/'' \<notin> set f"
  proof -
    have "split_on CHR ''/'' (''/'' @ p @ ''/'' @ f) = [[], p, f]"
      using that by (simp add: split_on_first split_on_absent)
    then show ?thesis by (simp add: processModifier.simps)
  qed
  have c2: "processModifier engine ''regex'' (JStr (''/'' @ p @ ''/'' @ f @ ''/'' @ rest)) =
      regex_clause engine p f"
    if "CHR ''/'' \<notin> set p" and "CHR ''/'' \<notin> set f"
  proof -
    have "split_on CHR ''/'' (''/'' @ p @ ''/'' @ f @ ''/'' @ rest) =
        [] # p # f # split_on CHR ''/'' rest"
      using that by (simp add: split_on_first)
    then show ?thesis by (simp add: processModifier.simps)
  qed
  have d: "processModifier engine ''regex'' (JStr s) = regex_clause engine s []"
    if "take 1 s \<noteq> ''/''"
    using that by (simp add: processModifier.simps)
  have r: "regex_clause engine p f =
        (if (simple_pattern p \<and> simple_flags f) \<or> engine p f
         then Inr (JObj [(''$regex'', JRegExp p f)])
         else Inl SyntaxError)"
    by (simp add: regex_clause_def new_RegExp_def)
  show ?thesis using a b c0 c1 c2 d r contains_directive literal_of_escaped by blast
qed

text \<open>
  Instances: \<^verbatim>\<open>/^a.c$/gi\<close>, \<^verbatim>\<open>/abc\<close>, \<^verbatim>\<open>/a/i/x\<close>, \<^verbatim>\<open>plain\<close> after a space, and \<^verbatim>\<open>a.b*\<close>
  under \<^verbatim>\<open>contains\<close> return a directive; the pattern \<^verbatim>\<open>(\<close> and the flags \<^verbatim>\<open>z\<close> are not
  simple, and with an engine that rejects them the modifier throws a SyntaxError.
\<close>

theorem processModifier_regex_and_contains_witness:
  "processModifier strict_engine ''regex'' (JStr ''/^a.c$/gi'') = Inr (JObj [(''$regex'', JRegExp ''^a.c$'' ''gi'')])
   \<and> processModifier strict_engine ''regex'' (JStr ''/abc'') = Inr (JObj [(''$regex'', JRegExp ''abc'' [])])
   \<and> processModifier strict_engine ''regex'' (JStr ''/a/i/x'') = Inr (JObj [(''$regex'', JRegExp ''a'' ''i'')])
   \<and> processModifier strict_engine ''regex'' (JStr '' plain'') = Inr (JObj [(''$regex'', JRegExp '' plain'' [])])
   \<and> processModifier strict_engine ''regex'' (JStr ''('') = Inl SyntaxError
   \<and> processModifier strict_engine ''regex'' (JStr ''/a/z'') = Inl SyntaxError
   \<and> processModifier strict_engine ''contains'' (JStr ''a.b*'') =
       Inr (JObj [(''$regex'', JRegExp [CHR ''a'', CHR 0x5C, CHR ''.'', CHR ''b'', CHR 0x5C, CHR ''*''] [])])
   \<and> literal_of_pattern [CHR ''a'', CHR 0x5C, CHR ''.'', CHR ''b'', CHR 0x5C, CHR ''*''] = Some ''a.b*''"
proof -
  have e: "escapeRegExp ''a.b*'' = [CHR ''a'', CHR 0x5C, CHR ''.'', CHR ''b'', CHR 0x5C, CHR ''*'']"
    by (simp add: escapeRegExp_def regexp_specials_def)
  have s1: "''/'' @ ''^a.c$'' @ ''/'' @ ''gi'' = ''/^a.c$/gi''"
    and s2: "''/'' @ ''abc'' = ''/abc''"
    and s3: "''/'' @ ''a'' @ ''/'' @ ''i'' @ ''/'' @ ''x'' = ''/a/i/x''"
    and s4: "''/'' @ ''a'' @ ''/'' @ ''z'' = ''/a/z''"
    by simp_all
  have 1: "processModifier strict_engine ''regex'' (JStr ''/^a.c$/gi'') = Inr (JObj [(''$regex'', JRegExp ''^a.c$'' ''gi'')])"
    using processModifier_regex_and_contains [of strict_engine "''^a.c$''" "''gi''" "[]" "[]"]
    unfolding s1 by (simp add: simple_flags_def syntax_characters_def)
  have 2: "processModifier strict_engine ''regex'' (JStr ''/abc'') = Inr (JObj [(''$regex'', JRegExp ''abc'' [])])"
    using processModifier_regex_and_contains [of strict_engine "''abc''" "[]" "[]" "[]"]
    unfolding s2 by (simp add: simple_flags_def syntax_characters_def)
  have 3: "processModifier strict_engine ''regex'' (JStr ''/a/i/x'') = Inr (JObj [(''$regex'', JRegExp ''a'' ''i'')])"
    using processModifier_regex_and_contains [of strict_engine "''a''" "''i''" "''x''" "[]"]
    unfolding s3 by (simp add: simple_flags_def syntax_characters_def)
  have 4: "processModifier strict_engine ''regex'' (JStr '' plain'') = Inr (JObj [(''$regex'', JRegExp '' plain'' [])])"
    using processModifier_regex_and_contains [of strict_engine "'' plain''" "[]" "[]" "'' plain''"]
    by (simp add: simple_flags_def syntax_characters_def)
  have 5: "processModifier strict_engine ''regex'' (JStr ''('') = Inl SyntaxError"
    using processModifier_regex_and_contains [of strict_engine "''(''" "[]" "[]" "''(''"]
    by (simp add: simple_flags_def syntax_characters_def strict_engine_def)
  have 6: "processModifier strict_engine ''regex'' (JStr ''/a/z'') = Inl SyntaxError"
    using processModifier_regex_and_contains [of strict_engine "''a''" "''z''" "[]" "[]"]
    unfolding s4 by (simp add: simple_flags_def syntax_characters_def strict_engine_def)
  have 7: "processModifier strict_engine ''contains'' (JStr ''a.b*'') =
       Inr (JObj [(''$regex'', JRegExp [CHR ''a'', CHR 0x5C, CHR ''.'', CHR ''b'', CHR 0x5C, CHR ''*''] [])])
     \<and> literal_of_pattern [CHR ''a'', CHR 0x5C, CHR ''.'', CHR ''b'', CHR 0x5C, CHR ''*''] = Some ''a.b*''"
    using processModifier_regex_and_contains [of strict_engine "[]" "[]" "[]" "''a.b*''"]
    unfolding e by simp
  show ?thesis using 1 2 3 4 5 6 7 by simp
qed

section \<open>Modifiers and the whitelist\<close>

text \<open>
  A modifier replaces the value by a directive object. The compiler then treats the entry
  like any entry whose value is an object: it recurses into it and keeps the key. Only an
  entry whose value is not an object is compared with the whitelist.
\<close>

lemma compile_email_contains:
  "buildQueryFromParams engine exports_config flds []
     (JObj [(''email.contains'', JStr ''x'')]) =
   Inr (JObj [(''email'', JObj [(''$regex'', JRegExp ''x'' [])])])"
  by (simp add: compile_simps fieldModifiers_default email_not_operator regex_is_operator
      resolve_modifier_def Let_def obj_get_def obj_delete_def processModifier.simps
      regex_clause_def new_RegExp_def simple_flags_def syntax_characters_def
      escapeRegExp_def regexp_specials_def field_path_def)

text \<open>
  C2, as stated: \<^verbatim>\<open>{"email.contains": "x"}\<close> compiles to the mapping with the directive
  under \<^verbatim>\<open>email\<close> if and only if \<^verbatim>\<open>email\<close> is whitelisted, and to the empty mapping
  otherwise. With the empty whitelist the compiler still returns the directive under
  \<^verbatim>\<open>email\<close>, not the empty mapping.
\<close>

theorem modifier_whitelist_counterexample:
  "''email'' \<notin> set ([] :: string list)
   \<and> buildQueryFromParams strict_engine exports_config [] [] (JObj [(''email.contains'', JStr ''x'')])
       = Inr (JObj [(''email'', JObj [(''$regex'', JRegExp ''x'' [])])])
   \<and> buildQueryFromParams strict_engine exports_config [] [] (JObj [(''email.contains'', JStr ''x'')])
       \<noteq> Inr (JObj [])"
  using compile_email_contains [of strict_engine "[]"] by simp

text \<open>
  C2, amended: for every whitelist, \<^verbatim>\<open>{"email.contains": "x"}\<close> compiles to the mapping
  that has under \<^verbatim>\<open>email\<close> the directive for the literal \<^verbatim>\<open>x\<close>, whether or not \<^verbatim>\<open>email\<close>
  is whitelisted.
\<close>

theorem modifier_ignores_whitelist:
  "buildQueryFromParams engine exports_config flds [] (JObj [(''email.contains'', JStr ''x'')])
     = Inr (JObj [(''email'', JObj [(''$regex'', JRegExp (escapeRegExp ''x'') [])])])
   \<and> literal_of_pattern (escapeRegExp ''x'') = Some ''x''"
proof -
  have "escapeRegExp ''x'' = ''x''" by (simp add: escapeRegExp_def regexp_specials_def)
  then show ?thesis using compile_email_contains [of engine flds] literal_of_escaped [of "''x''"] by simp
qed

section \<open>Modifier keys with values that are not strings\<close>

lemma contains_throws: "(\<forall>s. v \<noteq> JStr s) \<Longrightarrow> processModifier engine ''contains'' v = Inl TypeError"
  by (cases v) (auto simp: processModifier.simps)

text \<open>
  C10. Compiling can throw: a mapping with one entry whose key ends in the segment
  \<^verbatim>\<open>contains\<close> (\<^verbatim>\<open>x.contains\<close>, or \<^verbatim>\<open>contains\<close> alone) and whose value is not a string
  makes \<^verbatim>\<open>buildQueryFromParams\<close> throw a TypeError, for every whitelist and context,
  because the \<^verbatim>\<open>contains\<close> branch applies the string replacement to the value as it is.
\<close>

theorem contains_key_non_string_throws:
  assumes "last (split_on CHR ''.'' k) = ''contains''" and "\<forall>s. v \<noteq> JStr s"
  shows "buildQueryFromParams engine exports_config flds ctx (JObj [(k, v)]) = Inl TypeError"
proof -
  have "resolve_modifier engine exports_config k v [(k, v)] = Inl TypeError"
    using assms contains_throws [of v]
    by (simp add: resolve_modifier_def Let_def fieldModifiers_default)
  then show ?thesis by (simp add: compile_simps obj_get_def)
qed

theorem contains_key_non_string_throws_witness:
  "buildQueryFromParams strict_engine exports_config [''age''] [] (JObj [(''age.contains'', JNum 5)]) = Inl TypeError
   \<and> buildQueryFromParams strict_engine exports_config [] [] (JObj [(''contains'', JBool True)]) = Inl TypeError"
  using contains_key_non_string_throws [of "''age.contains''" "JNum 5" strict_engine "[''age'']" "[]"]
    contains_key_non_string_throws [of "''contains''" "JBool True" strict_engine "[]" "[]"]
  by simp

section \<open>Properties of the pagination meta data\<close>

lemma obj_set_not_Nil: "obj_set k v ps \<noteq> []"
  by (cases ps) auto

lemma make_link_not_empty: "make_link stringify path (obj_set k v ps) \<noteq> empty_link path"
  by (auto simp: make_link_def empty_link_def path_given_def obj_set_not_Nil split: option.splits)

lemma parseInt_digits:
  "parseInt (JStr ''10'') = Some 10" "parseInt (JStr ''2'') = Some 2" "parseInt (JStr ''3'') = Some 3"
  by (simp_all add: parseInt_def Let_def is_space_def is_digit_def parse_digits_def digit_value_def)

lemma requested_example:
  "requested_limit exports_config [(''limit'', JStr ''10''), (''page'', JStr ''2'')] = Some 10"
  "requested_page [(''limit'', JStr ''10''), (''page'', JStr ''2'')] = Some 2"
  "requested_limit exports_config [(''limit'', JStr ''10''), (''page'', JStr ''3'')] = Some 10"
  "requested_page [(''limit'', JStr ''10''), (''page'', JStr ''3'')] = Some 3"
  by (simp_all add: requested_limit_def requested_page_def obj_get_def js_or_def parseInt_digits)

lemma buildResultsMeta_fulfilled:
  "\<exists>m. buildResultsMeta cfg stringify path params (Inr count) = Inr m
     \<and> meta_pages m =
         (case requested_limit cfg params of
            Some l \<Rightarrow> if 0 < count \<and> 0 < l then \<lceil>real count / real_of_int l\<rceil> else 1
          | None \<Rightarrow> 1)
     \<and> link_first (meta_links m) \<noteq> empty_link path
     \<and> link_last (meta_links m) \<noteq> empty_link path
     \<and> (link_prev (meta_links m) \<noteq> empty_link path) =
         (\<exists>p. requested_page params = Some p \<and> 1 < p)
     \<and> (link_next (meta_links m) \<noteq> empty_link path) =
         (\<exists>l p. requested_limit cfg params = Some l \<and> requested_page params = Some p
                \<and> 0 < l \<and> p * l < int count)"
  by (auto simp: buildResultsMeta_def Let_def make_link_not_empty split: option.splits)

text \<open>
  C4. When the count succeeds, \<^verbatim>\<open>buildResultsMeta\<close> resolves with meta data in which the
  page count is \<^verbatim>\<open>ceil(count / limit)\<close> when \<^verbatim>\<open>count > 0\<close> and \<^verbatim>\<open>limit > 0\<close> and 1 otherwise
  (a limit that does not parse is \<^verbatim>\<open>NaN\<close>, for which \<^verbatim>\<open>limit > 0\<close> is false); the first and
  last links are set; the prev link is set if and only if \<^verbatim>\<open>page > 1\<close>; the next link is
  set if and only if \<^verbatim>\<open>limit > 0\<close> and \<^verbatim>\<open>count > page * limit\<close>. With 25 documents and
  limit 10 there are 3 pages, and the next link is set on page 2 and not set on page 3.
  The count is a number of documents, a natural number.
\<close>

theorem buildResultsMeta_pages_and_links:
  "(\<exists>m. buildResultsMeta cfg stringify path params (Inr count) = Inr m
     \<and> meta_pages m =
         (case requested_limit cfg params of
            Some l \<Rightarrow> if 0 < count \<and> 0 < l then \<lceil>real count / real_of_int l\<rceil> else 1
          | None \<Rightarrow> 1)
     \<and> link_first (meta_links m) \<noteq> empty_link path
     \<and> link_last (meta_links m) \<noteq> empty_link path
     \<and> (link_prev (meta_links m) \<noteq> empty_link path) =
         (\<exists>p. requested_page params = Some p \<and> 1 < p)
     \<and> (link_next (meta_links m) \<noteq> empty_link path) =
         (\<exists>l p. requested_limit cfg params = Some l \<and> requested_page params = Some p
                \<and> 0 < l \<and> p * l < int count))
   \<and> (\<exists>m. buildResultsMeta exports_config stringify path
              [(''limit'', JStr ''10''), (''page'', JStr ''2'')] (Inr 25) = Inr m
         \<and> meta_pages m = 3
         \<and> link_prev (meta_links m) \<noteq> empty_link path
         \<and> link_next (meta_links m) \<noteq> empty_link path)
   \<and> (\<exists>m. buildResultsMeta exports_config stringify path
              [(''limit'', JStr ''10''), (''page'', JStr ''3'')] (Inr 25) = Inr m
         \<and> meta_pages m = 3
         \<and> link_next (meta_links m) = empty_link path)"
proof (intro conjI)
  show "\<exists>m. buildResultsMeta cfg stringify path params (Inr count) = Inr m
     \<and> meta_pages m =
         (case requested_limit cfg params of
            Some l \<Rightarrow> if 0 < count \<and> 0 < l then \<lceil>real count / real_of_int l\<rceil> else 1
          | None \<Rightarrow> 1)
     \<and> link_first (meta_links m) \<noteq> empty_link path
     \<and> link_last (meta_links m) \<noteq> empty_link path
     \<and> (link_prev (meta_links m) \<noteq> empty_link path) =
         (\<exists>p. requested_page params = Some p \<and> 1 < p)
     \<and> (link_next (meta_links m) \<noteq> empty_link path) =
         (\<exists>l p. requested_limit cfg params = Some l \<and> requested_page params = Some p
                \<and> 0 < l \<and> p * l < int count)"
    by (rule buildResultsMeta_fulfilled)
next
  show "\<exists>m. buildResultsMeta exports_config stringify path
              [(''limit'', JStr ''10''), (''page'', JStr ''2'')] (Inr 25) = Inr m
         \<and> meta_pages m = 3
         \<and> link_prev (meta_links m) \<noteq> empty_link path
         \<and> link_next (meta_links m) \<noteq> empty_link path"
    using buildResultsMeta_fulfilled [of exports_config stringify path
        "[(''limit'', JStr ''10''), (''page'', JStr ''2'')]" 25]
    by (auto simp: requested_example)
next
  show "\<exists>m. buildResultsMeta exports_config stringify path
              [(''limit'', JStr ''10''), (''page'', JStr ''3'')] (Inr 25) = Inr m
         \<and> meta_pages m = 3
         \<and> link_next (meta_links m) = empty_link path"
    using buildResultsMeta_fulfilled [of exports_config stringify path
        "[(''limit'', JStr ''10''), (''page'', JStr ''3'')]" 25]
    by (auto simp: requested_example)
qed

text \<open>
  C5. \<^verbatim>\<open>buildResultsMeta\<close> never rejects: however the count settles, the promise resolves.
  When the count fails, it resolves with meta data whose \<^verbatim>\<open>documents\<close> field is the error
  value, whose page count is still 0 and whose next and last links are still empty.
\<close>

theorem buildResultsMeta_never_rejects:
  "(\<exists>m. buildResultsMeta cfg stringify path params counted = Inr m)
   \<and> (\<exists>m. buildResultsMeta cfg stringify path params (Inl error) = Inr m
         \<and> meta_documents m = error
         \<and> meta_pages m = 0
         \<and> link_next (meta_links m) = empty_link path
         \<and> link_last (meta_links m) = empty_link path)"
proof
  show "\<exists>m. buildResultsMeta cfg stringify path params counted = Inr m"
    by (cases counted) (simp_all add: buildResultsMeta_def Let_def)
next
  show "\<exists>m. buildResultsMeta cfg stringify path params (Inl error) = Inr m
         \<and> meta_documents m = error
         \<and> meta_pages m = 0
         \<and> link_next (meta_links m) = empty_link path
         \<and> link_last (meta_links m) = empty_link path"
    by (auto simp: buildResultsMeta_def Let_def split: option.splits)
qed

section \<open>Channels of the socket handlers\<close>

lemma save_find_update_channels:
  "fst (saveDocument_then c (Inr d)) = ''api.'' @ c @ ''.save.response''"
  "fst (saveDocument_then c (Inl e)) = ''api.'' @ c @ ''.save.error''"
  "fst (findDocuments_then c m (Inr d)) = ''api.'' @ c @ ''.find.response''"
  "fst (findDocuments_then c m (Inl e)) = ''api.'' @ c @ ''.find.error''"
  "fst (updateDocument_then c (Inr d)) = ''api.'' @ c @ ''.update.response''"
  "fst (updateDocument_then c (Inl e)) = ''api.'' @ c @ ''.update.error''"
  by (simp_all add: saveDocument_then_def findDocuments_then_def updateDocument_then_def)

text \<open>
  C7 says that the \<^verbatim>\<open>delete\<close> handler emits its result on \<^verbatim>\<open>api.{collection}.delete.response\<close>
  and its failure on \<^verbatim>\<open>api.{collection}.delete.error\<close>, as the other three verbs do on their
  own channels. The \<^verbatim>\<open>delete\<close> handler emits both on \<^verbatim>\<open>api.{collection}.update.response\<close>.
\<close>

theorem delete_emits_on_update_channel:
  "fst (deleteDocuments_then ''samples'' (Inr removed)) = ''api.samples.update.response''
   \<and> fst (deleteDocuments_then ''samples'' (Inl error)) = ''api.samples.update.response''
   \<and> fst (deleteDocuments_then ''samples'' (Inr removed)) \<noteq> ''api.samples.delete.response''
   \<and> fst (deleteDocuments_then ''samples'' (Inl error)) \<noteq> ''api.samples.delete.error''"
  by (simp add: deleteDocuments_then_def)

section \<open>The caller's parameter object\<close>

text \<open>
  C8 says that the parameter object of the caller is unchanged after compilation. The
  \<^verbatim>\<open>save\<close> handler compiles the payload object itself: a payload with a field outside the
  whitelist has lost that field when the handler returns. \<^verbatim>\<open>createDocument\<close> does the same
  to \<^verbatim>\<open>req.query\<close>, which also receives the fields of the body.
\<close>

theorem saveDocument_rewrites_payload:
  "saveDocument engine exports_config [''email''] ''samples'' crud_save
      (JObj [(''email'', JStr ''a''), (''role'', JStr ''admin'')])
     = Inr (JObj [(''email'', JStr ''a'')],
            saveDocument_then ''samples'' (crud_save (JObj [(''email'', JStr ''a'')])))
   \<and> (\<exists>response.
         createDocument engine exports_config [''email''] crud_create
             [(''role'', JStr ''admin'')] (Some [(''email'', JStr ''a'')])
           = Inr (JObj [(''email'', JStr ''a'')], response))"
proof -
  have ops: "''email'' \<notin> set (queryOperatorIgnore exports_config)"
    "''role'' \<notin> set (queryOperatorIgnore exports_config)"
    by (simp_all add: exports_config_def)
  have a: "buildQueryFromParams engine exports_config [''email''] []
      (JObj [(''email'', JStr ''a''), (''role'', JStr ''admin'')]) = Inr (JObj [(''email'', JStr ''a'')])"
    by (simp add: compile_simps fieldModifiers_default ops resolve_modifier_def Let_def obj_get_def
        obj_delete_def field_path_def)
  have b: "buildQueryFromParams engine exports_config [''email''] []
      (JObj [(''role'', JStr ''admin''), (''email'', JStr ''a'')]) = Inr (JObj [(''email'', JStr ''a'')])"
    by (simp add: compile_simps fieldModifiers_default ops resolve_modifier_def Let_def obj_get_def
        obj_delete_def field_path_def)
  show ?thesis
    by (simp add: saveDocument_def createDocument_def js_or_def js_extend_def a b)
qed

section \<open>The shared configuration\<close>

lemma extend_config_get:
  "config_get (extend_config c ov) s = or_else (override_get (Some ov) s) (config_get c s)"
  by (cases s) (auto simp: extend_config_def or_else_def split: option.splits)

lemma extend_no_overrides: "extend_config c no_overrides = c"
  by (simp add: extend_config_def no_overrides_def or_else_def)

lemma bind_config_get:
  assumes "bind \<in> {serveSockets, serveRoutes, serveCrud}"
  shows "snd (bind exports ov) = fst (bind exports ov)"
    and "config_get (fst (bind exports ov)) s = or_else (override_get ov s) (config_get exports s)"
proof -
  have eq: "bind exports ov =
      (extend_config exports (or_else ov no_overrides), extend_config exports (or_else ov no_overrides))"
    using assms by (auto simp: serveSockets_def serveRoutes_def serveCrud_def Let_def)
  show "snd (bind exports ov) = fst (bind exports ov)" by (simp add: eq)
  have "config_get (extend_config exports (or_else ov no_overrides)) s
      = or_else (override_get ov s) (config_get exports s)"
  proof (cases ov)
    case None
    then show ?thesis by (simp add: or_else_def extend_no_overrides)
  next
    case (Some o1)
    then show ?thesis by (simp add: extend_config_get) (simp add: or_else_def)
  qed
  then show "config_get (fst (bind exports ov)) s = or_else (override_get ov s) (config_get exports s)"
    by (simp add: eq)
qed

text \<open>
  C9. Each of \<^verbatim>\<open>serveSockets\<close>, \<^verbatim>\<open>serveRoutes\<close> and \<^verbatim>\<open>serveCrud\<close> merges its overrides
  into the module's default configuration object itself. So when a bind call overrides a
  setting, \<^verbatim>\<open>exports.config\<close> holds the override afterwards, and a second bind call that
  does not override that setting binds a configuration that still holds it.
\<close>

theorem override_outlives_bind_call:
  assumes "bind1 \<in> {serveSockets, serveRoutes, serveCrud}"
    and "bind2 \<in> {serveSockets, serveRoutes, serveCrud}"
    and "override_get ov1 s = Some v"
    and "override_get ov2 s = None"
  shows "config_get (fst (bind1 exports ov1)) s = v
       \<and> config_get (snd (bind2 (fst (bind1 exports ov1)) ov2)) s = v"
proof -
  have 1: "config_get (fst (bind1 exports ov1)) s = v"
    using bind_config_get(2) [OF assms(1)] assms(3) by (simp add: or_else_def)
  have "config_get (fst (bind2 (fst (bind1 exports ov1)) ov2)) s = v"
    using bind_config_get(2) [OF assms(2)] assms(4) 1 by (simp add: or_else_def)
  then show ?thesis using 1 bind_config_get(1) [OF assms(2)] by simp
qed

theorem override_outlives_bind_call_witness:
  "queryLimit (fst (serveSockets exports_config
       (Some (no_overrides\<lparr>set_queryLimit := Some (JNum 5)\<rparr>)))) = JNum 5
   \<and> queryLimit (snd (serveCrud (fst (serveSockets exports_config
       (Some (no_overrides\<lparr>set_queryLimit := Some (JNum 5)\<rparr>)))) None)) = JNum 5
   \<and> queryLimit exports_config = JNum 0"
proof -
  have "override_get (Some (no_overrides\<lparr>set_queryLimit := Some (JNum 5)\<rparr>)) QueryLimit
      = Some (JsValue (JNum 5))"
    by simp
  moreover have "override_get None QueryLimit = None" by simp
  ultimately have "config_get (fst (serveSockets exports_config
         (Some (no_overrides\<lparr>set_queryLimit := Some (JNum 5)\<rparr>)))) QueryLimit = JsValue (JNum 5)
     \<and> config_get (snd (serveCrud (fst (serveSockets exports_config
         (Some (no_overrides\<lparr>set_queryLimit := Some (JNum 5)\<rparr>)))) None)) QueryLimit = JsValue (JNum 5)"
    by (intro override_outlives_bind_call) simp_all
  then show ?thesis by (simp add: exports_config_def)
qed

section \<open>What compiling filters\<close>

subsection \<open>Entries of an object after an assignment or a deletion\<close>

lemma filtered_entries_iff:
  "filtered_entries cfg flds ctx ps = (\<forall>p \<in> set ps. entry_ok cfg flds ctx p)"
  by (induction ps) (auto simp: entry_ok_def)

lemma plain_entries_iff: "plain_entries ps = (\<forall>p \<in> set ps. plain_data (snd p))"
  by (induction ps) auto

lemma fst_set_obj_set: "fst ` set (obj_set k v ps) = insert k (fst ` set ps)"
  by (induction ps) auto

lemma distinct_obj_set: "distinct (map fst ps) \<Longrightarrow> distinct (map fst (obj_set k v ps))"
proof (induction ps)
  case Nil
  then show ?case by simp
next
  case (Cons p ps)
  have "fst p \<notin> fst ` set (obj_set k v ps)" if "fst p \<noteq> k"
    using Cons.prems that by (simp add: fst_set_obj_set)
  then show ?case using Cons by auto
qed

lemma set_obj_set:
  "distinct (map fst ps) \<Longrightarrow> set (obj_set k v ps) = insert (k, v) {p \<in> set ps. fst p \<noteq> k}"
proof (induction ps)
  case Nil
  then show ?case by simp
next
  case (Cons p ps)
  show ?case
  proof (cases "fst p = k")
    case True
    have "fst p \<notin> fst ` set ps" using Cons.prems by simp
    then have "\<forall>q \<in> set ps. fst q \<noteq> k" using True by (force simp: image_iff)
    then show ?thesis using True by auto
  next
    case False
    then show ?thesis using Cons by auto
  qed
qed

lemma set_obj_delete: "set (obj_delete k ps) = {p \<in> set ps. fst p \<noteq> k}"
  by (auto simp: obj_delete_def)

lemma distinct_obj_delete: "distinct (map fst ps) \<Longrightarrow> distinct (map fst (obj_delete k ps))"
  by (simp add: obj_delete_def distinct_map_filter)

lemma obj_get_present: "distinct (map fst ps) \<Longrightarrow> (k, v) \<in> set ps \<Longrightarrow> obj_get ps k = v"
  by (simp add: obj_get_def)

lemma obj_get_object_in: "typeof_object (obj_get ps k) \<Longrightarrow> (k, obj_get ps k) \<in> set ps"
  by (auto simp: obj_get_def split: option.splits dest: map_of_SomeD)

lemma no_modifier_entries_iff:
  "no_modifier_entries cfg ps =
     (\<forall>p \<in> set ps. \<not> modifier_key cfg (fst p) \<and> no_modifier_keys cfg (snd p))"
  by (induction ps) auto

lemma obj_get_in:
  assumes "k \<in> fst ` set ps"
  shows "(k, obj_get ps k) \<in> set ps" and "map_of ps k = Some (obj_get ps k)"
proof -
  from assms obtain v where v: "map_of ps k = Some v"
    by (metis domD dom_map_of_conv_image_fst)
  then show "map_of ps k = Some (obj_get ps k)" by (simp add: obj_get_def)
  from v show "(k, obj_get ps k) \<in> set ps" by (simp add: obj_get_def map_of_SomeD)
qed

lemma obj_set_same: "map_of ps k = Some v \<Longrightarrow> obj_set k v ps = ps"
  by (induction ps) (auto split: if_splits)

lemma resolve_modifier_plain:
  "\<not> modifier_key cfg k \<Longrightarrow> resolve_modifier engine cfg k v ps = Inr (k, v, ps)"
  by (simp add: resolve_modifier_def modifier_key_def Let_def)

subsection \<open>The output is filtered\<close>

text \<open>
  The invariant of the walk over an object: the entries under keys still to visit hold
  plain data, the entries under the other keys already satisfy the guarantee.
\<close>

lemma compile_typeof:
  "buildQueryFromParams engine cfg flds ctx v = Inr r \<Longrightarrow> typeof_object r = typeof_object v"
  by (cases v) (auto simp: compile_simps split: sum.splits)

lemma processModifier_directive:
  assumes "m = ''contains'' \<or> m = ''regex''" and "processModifier engine m v0 = Inr v"
  shows "\<exists>p f. v = JObj [(''$regex'', JRegExp p f)]"
  using assms
  by (auto simp: processModifier.simps regex_clause_def new_RegExp_def Let_def
      split: jsval.splits if_splits)

lemma compile_directive:
  assumes "fieldModifiers cfg = [''contains'', ''regex'']"
  shows "buildQueryFromParams engine cfg flds ctx (JObj [(''$regex'', JRegExp p f)])
      = Inr (JObj [(''$regex'', JRegExp p f)])"
  using assms by (simp add: compile_simps resolve_modifier_def Let_def obj_get_def)

lemma compile_filtered:
  "fieldModifiers cfg = [''contains'', ''regex''] \<Longrightarrow> plain_data params \<Longrightarrow>
     buildQueryFromParams engine cfg flds ctx params = Inr q \<Longrightarrow> filtered cfg flds ctx q"
  "fieldModifiers cfg = [''contains'', ''regex''] \<Longrightarrow> distinct (map fst ps) \<Longrightarrow> distinct ks \<Longrightarrow>
     (\<forall>p \<in> set ps. fst p \<in> set ks \<longrightarrow> plain_data (snd p)) \<Longrightarrow>
     (\<forall>p \<in> set ps. fst p \<notin> set ks \<longrightarrow> entry_ok cfg flds ctx p) \<Longrightarrow>
     each_object engine cfg flds ctx ks ps = Inr ps' \<Longrightarrow> filtered_entries cfg flds ctx ps'"
  "fieldModifiers cfg = [''contains'', ''regex''] \<Longrightarrow> plain_items xs \<Longrightarrow>
     each_array engine cfg flds ctx xs = Inr ys \<Longrightarrow> filtered_items cfg flds ctx ys"
proof (induction engine cfg flds ctx params and engine cfg flds ctx ks ps and engine cfg flds ctx xs
        arbitrary: q and ps' and ys
        rule: buildQueryFromParams_each_object_each_array.induct)
  case (1 engine cfg flds ctx ps)
  from "1.prems"(3) obtain ps' where e: "each_object engine cfg flds ctx (map fst ps) ps = Inr ps'"
    and q: "q = JObj ps'"
    by (auto simp: compile_simps split: sum.splits)
  have "filtered_entries cfg flds ctx ps'"
    using "1.IH" [OF "1.prems"(1) _ _ _ _ e] "1.prems"(2) by (auto simp: plain_entries_iff)
  then show ?case by (simp add: q)
next
  case (2 engine cfg flds ctx xs)
  then show ?case by (auto simp: compile_simps split: sum.splits)
next
  case (4 engine cfg flds ctx ps)
  then show ?case by (simp add: compile_simps filtered_entries_iff)
next
  case (5 engine cfg flds ctx k ks ps)
  note fm = "5.prems"(1) and dps = "5.prems"(2) and pend = "5.prems"(4) and fin = "5.prems"(5)
  from "5.prems"(3) have dks: "distinct ks" and kks: "k \<notin> set ks" by simp_all
  from "5.prems"(6) obtain key v ps1 where
    rm: "resolve_modifier engine cfg k (obj_get ps k) ps = Inr (key, v, ps1)"
    by (auto simp: compile_simps split: sum.splits)
  let ?ctx' = "if key \<in> set (queryOperatorIgnore cfg) then ctx else field_path ctx k"
  from rm show ?case
  proof (cases rule: resolve_modifier_cases)
    case plain
    note [simp] = plain(2,3,4)
    show ?thesis
    proof (cases "typeof_object v")
      case True
      with "5.prems"(6) rm obtain r where
        c: "buildQueryFromParams engine cfg flds ?ctx' v = Inr r"
        and e: "each_object engine cfg flds ctx ks (obj_set key r ps1) = Inr ps'"
        by (auto simp: compile_simps split: sum.splits)
      have kin: "(k, v) \<in> set ps" using True obj_get_object_in [of ps k] by simp
      then have pv: "plain_data v" using pend by auto
      have fr: "filtered cfg flds ?ctx' r" using "5.IH"(1) [OF rm refl refl True fm pv c] .
      have tr: "typeof_object r" using compile_typeof [OF c] True by simp
      have s: "set (obj_set k r ps) = insert (k, r) {p \<in> set ps. fst p \<noteq> k}"
        using dps by (rule set_obj_set)
      have "filtered_entries cfg flds ctx ps'"
      proof (rule "5.IH"(2) [OF rm refl refl True c fm _ dks _ _ e])
        show "distinct (map fst (obj_set key r ps1))" using dps by (simp add: distinct_obj_set)
        show "\<forall>p\<in>set (obj_set key r ps1). fst p \<in> set ks \<longrightarrow> plain_data (snd p)"
          using pend kks by (auto simp: s)
        show "\<forall>p\<in>set (obj_set key r ps1). fst p \<notin> set ks \<longrightarrow> entry_ok cfg flds ctx p"
          using fin fr tr by (auto simp: s entry_ok_def)
      qed
      then show ?thesis .
    next
      case False
      show ?thesis
      proof (cases "field_path ctx k \<notin> set flds \<and> key \<notin> set (queryOperatorIgnore cfg)")
        case True
        with False "5.prems"(6) rm have
          e: "each_object engine cfg flds ctx ks (obj_delete key ps1) = Inr ps'"
          by (auto simp: compile_simps split: sum.splits)
        show ?thesis
        proof (rule "5.IH"(3) [OF rm refl refl False True fm _ dks _ _ e])
          show "distinct (map fst (obj_delete key ps1))" using dps by (simp add: distinct_obj_delete)
          show "\<forall>p\<in>set (obj_delete key ps1). fst p \<in> set ks \<longrightarrow> plain_data (snd p)"
            using pend by (auto simp: set_obj_delete)
          show "\<forall>p\<in>set (obj_delete key ps1). fst p \<notin> set ks \<longrightarrow> entry_ok cfg flds ctx p"
            using fin by (auto simp: set_obj_delete)
        qed
      next
        case ok: False
        with False "5.prems"(6) rm have
          e: "each_object engine cfg flds ctx ks ps1 = Inr ps'"
          by (auto simp: compile_simps split: sum.splits)
        show ?thesis
        proof (rule "5.IH"(4) [OF rm refl refl False ok fm _ dks _ _ e])
          show "distinct (map fst ps1)" using dps by simp
          show "\<forall>p\<in>set ps1. fst p \<in> set ks \<longrightarrow> plain_data (snd p)"
            using pend by auto
          show "\<forall>p\<in>set ps1. fst p \<notin> set ks \<longrightarrow> entry_ok cfg flds ctx p"
          proof (intro ballI impI)
            fix p assume p: "p \<in> set ps1" and nk: "fst p \<notin> set ks"
            show "entry_ok cfg flds ctx p"
            proof (cases "fst p = k")
              case True
              then have "p = (k, snd p)" by (cases p) simp
              then have "snd p = v" using obj_get_present [OF dps, of k "snd p"] p by simp
              then show ?thesis using True False ok by (simp add: entry_ok_def entry_filtered_def)
            next
              case False
              then show ?thesis using fin p nk by auto
            qed
          qed
        qed
      qed
    qed
  next
    case modified
    from modified(1) fm have m: "last (split_on CHR ''.'' k) = ''contains'' \<or> last (split_on CHR ''.'' k) = ''regex''"
      by simp
    from processModifier_directive [OF m modified(2)] obtain pat fl where
      v: "v = JObj [(''$regex'', JRegExp pat fl)]" by blast
    have True: "typeof_object v" by (simp add: v)
    with "5.prems"(6) rm obtain r where
      c: "buildQueryFromParams engine cfg flds ?ctx' v = Inr r"
      and e: "each_object engine cfg flds ctx ks (obj_set key r ps1) = Inr ps'"
      by (auto simp: compile_simps split: sum.splits)
    have r: "r = v" using c compile_directive [OF fm] by (simp add: v)
    have d1: "distinct (map fst ps1)"
      unfolding modified(4) using dps by (intro distinct_obj_set distinct_obj_delete)
    have s: "set (obj_set key r ps1) = insert (key, v) {p \<in> set ps. fst p \<noteq> k \<and> fst p \<noteq> key}"
      using set_obj_set [OF d1, of key r] dps
      by (auto simp: r modified(4) set_obj_set distinct_obj_delete set_obj_delete)
    show ?thesis
    proof (rule "5.IH"(2) [OF rm refl refl True c fm _ dks _ _ e])
      show "distinct (map fst (obj_set key r ps1))" using d1 by (rule distinct_obj_set)
      show "\<forall>p\<in>set (obj_set key r ps1). fst p \<in> set ks \<longrightarrow> plain_data (snd p)"
        using pend by (auto simp: s v numeric_length_def)
      show "\<forall>p\<in>set (obj_set key r ps1). fst p \<notin> set ks \<longrightarrow> entry_ok cfg flds ctx p"
        using fin by (auto simp: s v entry_ok_def)
    qed
  qed
next
  case (6 engine cfg flds ctx)
  then show ?case by (simp add: compile_simps)
next
  case (7 engine cfg flds ctx x xs)
  from "7.prems"(3) obtain y ys' where
    c: "buildQueryFromParams engine cfg flds ctx x = Inr y"
    and e: "each_array engine cfg flds ctx xs = Inr ys'" and ys: "ys = y # ys'"
    by (auto simp: compile_simps split: sum.splits)
  have "filtered cfg flds ctx y" using "7.IH"(1) [OF "7.prems"(1) _ c] "7.prems"(2) by simp
  moreover have "filtered_items cfg flds ctx ys'"
    using "7.IH"(2) [OF c "7.prems"(1) _ e] "7.prems"(2) by simp
  ultimately show ?case by (simp add: ys)
qed (auto simp: compile_simps)

subsection \<open>Without modifier keys, the output is the input without the refused entries\<close>

lemma obj_get_mid: "k \<notin> fst ` set qs \<Longrightarrow> obj_get (qs @ (k, v) # rs) k = v"
  by (simp add: obj_get_def map_of_append map_add_def map_of_eq_None_iff [THEN iffD2])

lemma obj_set_mid: "k \<notin> fst ` set qs \<Longrightarrow> obj_set k r (qs @ (k, v) # rs) = qs @ (k, r) # rs"
  by (induction qs) auto

lemma obj_delete_mid:
  "k \<notin> fst ` set qs \<Longrightarrow> k \<notin> fst ` set rs \<Longrightarrow> obj_delete k (qs @ (k, v) # rs) = qs @ rs"
proof -
  assume "k \<notin> fst ` set qs" and "k \<notin> fst ` set rs"
  then have "filter (\<lambda>p. fst p \<noteq> k) qs = qs" and "filter (\<lambda>p. fst p \<noteq> k) rs = rs"
    by (auto simp: filter_id_conv)
  then show ?thesis by (simp add: obj_delete_def)
qed

lemma compile_sanitized:
  "plain_data params \<Longrightarrow> no_modifier_keys cfg params \<Longrightarrow>
     buildQueryFromParams engine cfg flds ctx params = Inr (sanitized cfg flds ctx params)"
  "ps = qs @ rs \<Longrightarrow> ks = map fst rs \<Longrightarrow> distinct (map fst ps) \<Longrightarrow>
     plain_entries rs \<Longrightarrow> no_modifier_entries cfg rs \<Longrightarrow>
     each_object engine cfg flds ctx ks ps = Inr (qs @ sanitized_entries cfg flds ctx rs)"
  "plain_items xs \<Longrightarrow> no_modifier_items cfg xs \<Longrightarrow>
     each_array engine cfg flds ctx xs = Inr (sanitized_items cfg flds ctx xs)"
proof (induction engine cfg flds ctx params and engine cfg flds ctx ks ps and engine cfg flds ctx xs
        arbitrary: and qs rs and
        rule: buildQueryFromParams_each_object_each_array.induct)
  case (1 engine cfg flds ctx ps)
  have "each_object engine cfg flds ctx (map fst ps) ps = Inr ([] @ sanitized_entries cfg flds ctx ps)"
    using "1.prems" by (intro "1.IH") simp_all
  then show ?case by (simp add: compile_simps)
next
  case (2 engine cfg flds ctx xs)
  then show ?case by (simp add: compile_simps)
next
  case (4 engine cfg flds ctx ps)
  then show ?case by (simp add: compile_simps)
next
  case (5 engine cfg flds ctx k ks ps)
  from "5.prems"(2) obtain v rs' where rs: "rs = (k, v) # rs'" and ks: "ks = map fst rs'"
    by (cases rs) auto
  note ps = "5.prems"(1) [unfolded rs]
  from "5.prems"(3) have kq: "k \<notin> fst ` set qs" and kr: "k \<notin> fst ` set rs'"
    by (auto simp: ps)
  have val: "obj_get ps k = v" unfolding ps using kq by (rule obj_get_mid)
  from "5.prems"(4,5) have pv: "plain_data v" and prs: "plain_entries rs'"
    and nk: "\<not> modifier_key cfg k" and nv: "no_modifier_keys cfg v"
    and nrs: "no_modifier_entries cfg rs'"
    by (simp_all add: rs)
  have rm: "resolve_modifier engine cfg k (obj_get ps k) ps = Inr (k, v, ps)"
    using nk by (simp add: val resolve_modifier_plain)
  let ?ctx' = "if k \<in> set (queryOperatorIgnore cfg) then ctx else field_path ctx k"
  show ?case
  proof (cases "typeof_object v")
    case True
    have c: "buildQueryFromParams engine cfg flds ?ctx' v = Inr (sanitized cfg flds ?ctx' v)"
      using "5.IH"(1) [OF rm refl refl True pv nv] .
    have set: "obj_set k (sanitized cfg flds ?ctx' v) ps
        = (qs @ [(k, sanitized cfg flds ?ctx' v)]) @ rs'"
      unfolding ps using kq by (simp add: obj_set_mid)
    have "each_object engine cfg flds ctx ks (obj_set k (sanitized cfg flds ?ctx' v) ps)
        = Inr ((qs @ [(k, sanitized cfg flds ?ctx' v)]) @ sanitized_entries cfg flds ctx rs')"
    proof (rule "5.IH"(2) [OF rm refl refl True c set ks _ prs nrs])
      show "distinct (map fst (obj_set k (sanitized cfg flds ?ctx' v) ps))"
        using "5.prems"(3) by (rule distinct_obj_set)
    qed
    then show ?thesis using True rm c by (simp add: compile_simps rs)
  next
    case False
    show ?thesis
    proof (cases "field_path ctx k \<notin> set flds \<and> k \<notin> set (queryOperatorIgnore cfg)")
      case True
      have del: "obj_delete k ps = qs @ rs'"
        unfolding ps using kq kr by (rule obj_delete_mid)
      have "each_object engine cfg flds ctx ks (obj_delete k ps)
          = Inr (qs @ sanitized_entries cfg flds ctx rs')"
      proof (rule "5.IH"(3) [OF rm refl refl False True del ks _ prs nrs])
        show "distinct (map fst (obj_delete k ps))"
          using "5.prems"(3) by (rule distinct_obj_delete)
      qed
      then show ?thesis using False True rm
        by (simp add: compile_simps rs entry_filtered_def)
    next
      case ok: False
      have same: "ps = (qs @ [(k, v)]) @ rs'" by (simp add: ps)
      have "each_object engine cfg flds ctx ks ps
          = Inr ((qs @ [(k, v)]) @ sanitized_entries cfg flds ctx rs')"
        by (rule "5.IH"(4) [OF rm refl refl False ok same ks "5.prems"(3) prs nrs])
      then show ?thesis using False ok rm
        by (auto simp: compile_simps rs entry_filtered_def)
    qed
  qed
next
  case (6 engine cfg flds ctx)
  then show ?case by (simp add: compile_simps)
next
  case (7 engine cfg flds ctx x xs)
  have c: "buildQueryFromParams engine cfg flds ctx x = Inr (sanitized cfg flds ctx x)"
    using "7.prems" by (intro "7.IH"(1)) simp_all
  have "each_array engine cfg flds ctx xs = Inr (sanitized_items cfg flds ctx xs)"
    using "7.prems" by (intro "7.IH"(2) [OF c]) simp_all
  then show ?case using c by (simp add: compile_simps)
qed (simp_all add: compile_simps)

lemma example_plain:
  "plain_data (JObj [(''name'', JObj [(''first'', JStr ''Jo''), (''bogus'', JStr ''x'')]), (''other'', JStr ''y'')])"
  "no_modifier_keys exports_config
     (JObj [(''name'', JObj [(''first'', JStr ''Jo''), (''bogus'', JStr ''x'')]), (''other'', JStr ''y'')])"
  by (simp_all add: numeric_length_def modifier_key_def fieldModifiers_default)

lemma example_sanitized:
  "sanitized exports_config [''name.first'', ''name.last'', ''email''] []
     (JObj [(''name'', JObj [(''first'', JStr ''Jo''), (''bogus'', JStr ''x'')]), (''other'', JStr ''y'')])
   = JObj [(''name'', JObj [(''first'', JStr ''Jo'')])]"
  by code_simp

lemma example_compiles:
  "buildQueryFromParams engine exports_config [''name.first'', ''name.last'', ''email''] []
     (JObj [(''name'', JObj [(''first'', JStr ''Jo''), (''bogus'', JStr ''x'')]), (''other'', JStr ''y'')])
   = Inr (JObj [(''name'', JObj [(''first'', JStr ''Jo'')])])"
  using compile_sanitized(1) [OF example_plain] by (simp only: example_sanitized)

text \<open>
  C1, as stated: compiling removes every key that is neither a whitelisted field path in
  its context nor an operator or modifier name. The key \<^verbatim>\<open>role\<close> is none of these, yet
  \<^verbatim>\<open>{"role": {"$ne": "user"}}\<close> compiles to itself: the value is an object, so the key is
  kept and only the entries inside are examined.
\<close>

theorem object_valued_key_kept_counterexample:
  "buildQueryFromParams strict_engine exports_config [''email''] []
       (JObj [(''role'', JObj [(''$ne'', JStr ''user'')])])
     = Inr (JObj [(''role'', JObj [(''$ne'', JStr ''user'')])])
   \<and> ''role'' \<notin> set [''email'']
   \<and> ''role'' \<notin> set (queryOperatorIgnore exports_config)
   \<and> ''role'' \<notin> set (fieldModifiers exports_config)"
  by code_simp

text \<open>
  C1, amended: for every plain parameter mapping (no duplicate keys, no numeric \<^verbatim>\<open>length\<close>
  property), whitelist and context, at every nesting depth:

  \<^item> when compiling succeeds, every entry of the output whose value is not an object in the
    sense of \<^verbatim>\<open>typeof\<close> (a string, a number, a boolean) has a key that is a whitelisted field
    path in its dotted context or an operator name; the elements of an array are not
    entries, and an element that is not an object is kept as it is;

  \<^item> when no key of the mapping ends in a modifier name, compiling succeeds and the output is
    the mapping without exactly the entries whose value is not an object and whose key is
    neither a whitelisted field path in its dotted context nor an operator name: an entry
    whose value is an object, an array or \<^verbatim>\<open>null\<close> keeps its key, whatever the key is, and
    what is inside it is treated the same way.

  In particular, with the whitelist \<^verbatim>\<open>{"name.first","name.last","email"}\<close>,
  \<^verbatim>\<open>{"name":{"first":"Jo","bogus":"x"},"other":"y"}\<close> compiles to \<^verbatim>\<open>{"name":{"first":"Jo"}}\<close>.
\<close>

theorem compile_filters_scalar_entries:
  "(plain_data p \<and> buildQueryFromParams engine exports_config flds ctx p = Inr q
      \<longrightarrow> filtered exports_config flds ctx q)
   \<and> (plain_data p \<and> no_modifier_keys exports_config p
      \<longrightarrow> buildQueryFromParams engine exports_config flds ctx p
            = Inr (sanitized exports_config flds ctx p))
   \<and> buildQueryFromParams engine exports_config [''name.first'', ''name.last'', ''email''] []
        (JObj [(''name'', JObj [(''first'', JStr ''Jo''), (''bogus'', JStr ''x'')]), (''other'', JStr ''y'')])
      = Inr (JObj [(''name'', JObj [(''first'', JStr ''Jo'')])])"
  using compile_filtered(1) [OF fieldModifiers_default] compile_sanitized(1) example_compiles
  by blast

lemma mixed_values_plain:
  "plain_data (JObj [(''zip'', JNull), (''tags'', JArr [JStr ''a'', JObj [(''x'', JStr ''b'')]]),
      (''email.contains'', JStr ''x''), (''other'', JStr ''y'')])"
  "plain_data (JObj [(''zip'', JNull), (''tags'', JArr [JStr ''a'', JObj [(''x'', JStr ''b'')]]),
      (''email'', JStr ''e''), (''other'', JStr ''y'')])"
  "no_modifier_keys exports_config
     (JObj [(''zip'', JNull), (''tags'', JArr [JStr ''a'', JObj [(''x'', JStr ''b'')]]),
      (''email'', JStr ''e''), (''other'', JStr ''y'')])"
  by (simp_all add: numeric_length_def modifier_key_def fieldModifiers_default)

lemma mixed_values_compile:
  "buildQueryFromParams strict_engine exports_config [''email''] []
     (JObj [(''zip'', JNull), (''tags'', JArr [JStr ''a'', JObj [(''x'', JStr ''b'')]]),
        (''email.contains'', JStr ''x''), (''other'', JStr ''y'')])
   = Inr (JObj [(''zip'', JNull), (''tags'', JArr [JStr ''a'', JObj []]),
        (''email'', JObj [(''$regex'', JRegExp ''x'' [])])])"
  by code_simp

lemma mixed_values_sanitized:
  "sanitized exports_config [''email''] []
     (JObj [(''zip'', JNull), (''tags'', JArr [JStr ''a'', JObj [(''x'', JStr ''b'')]]),
        (''email'', JStr ''e''), (''other'', JStr ''y'')])
   = JObj [(''zip'', JNull), (''tags'', JArr [JStr ''a'', JObj []]), (''email'', JStr ''e'')]"
  by code_simp

text \<open>
  Instances: the example of the claim; a mapping with a modifier key, whose output has
  \<^verbatim>\<open>zip\<close> holding \<^verbatim>\<open>null\<close>, \<^verbatim>\<open>tags\<close> holding an array with a string in it, and the directive
  under \<^verbatim>\<open>email\<close>, none of them whitelisted entries of values that are not objects; and a
  mapping without modifier keys, of which \<^verbatim>\<open>zip\<close>, \<^verbatim>\<open>tags\<close> and the whitelisted \<^verbatim>\<open>email\<close> stay
  and \<^verbatim>\<open>other\<close> and the nested \<^verbatim>\<open>x\<close> go.
\<close>

theorem compile_filters_scalar_entries_witness:
  "plain_data (JObj [(''name'', JObj [(''first'', JStr ''Jo''), (''bogus'', JStr ''x'')]), (''other'', JStr ''y'')])
   \<and> buildQueryFromParams strict_engine exports_config [''name.first'', ''name.last'', ''email''] []
        (JObj [(''name'', JObj [(''first'', JStr ''Jo''), (''bogus'', JStr ''x'')]), (''other'', JStr ''y'')])
      = Inr (JObj [(''name'', JObj [(''first'', JStr ''Jo'')])])
   \<and> filtered exports_config [''name.first'', ''name.last'', ''email''] []
        (JObj [(''name'', JObj [(''first'', JStr ''Jo'')])])
   \<and> plain_data (JObj [(''zip'', JNull), (''tags'', JArr [JStr ''a'', JObj [(''x'', JStr ''b'')]]),
        (''email.contains'', JStr ''x''), (''other'', JStr ''y'')])
   \<and> buildQueryFromParams strict_engine exports_config [''email''] []
        (JObj [(''zip'', JNull), (''tags'', JArr [JStr ''a'', JObj [(''x'', JStr ''b'')]]),
           (''email.contains'', JStr ''x''), (''other'', JStr ''y'')])
      = Inr (JObj [(''zip'', JNull), (''tags'', JArr [JStr ''a'', JObj []]),
           (''email'', JObj [(''$regex'', JRegExp ''x'' [])])])
   \<and> filtered exports_config [''email''] []
        (JObj [(''zip'', JNull), (''tags'', JArr [JStr ''a'', JObj []]),
           (''email'', JObj [(''$regex'', JRegExp ''x'' [])])])
   \<and> plain_data (JObj [(''zip'', JNull), (''tags'', JArr [JStr ''a'', JObj [(''x'', JStr ''b'')]]),
        (''email'', JStr ''e''), (''other'', JStr ''y'')])
   \<and> no_modifier_keys exports_config
        (JObj [(''zip'', JNull), (''tags'', JArr [JStr ''a'', JObj [(''x'', JStr ''b'')]]),
           (''email'', JStr ''e''), (''other'', JStr ''y'')])
   \<and> buildQueryFromParams strict_engine exports_config [''email''] []
        (JObj [(''zip'', JNull), (''tags'', JArr [JStr ''a'', JObj [(''x'', JStr ''b'')]]),
           (''email'', JStr ''e''), (''other'', JStr ''y'')])
      = Inr (JObj [(''zip'', JNull), (''tags'', JArr [JStr ''a'', JObj []]), (''email'', JStr ''e'')])"
proof -
  note t = compile_filters_scalar_entries
  have a: "buildQueryFromParams strict_engine exports_config [''name.first'', ''name.last'', ''email''] []
        (JObj [(''name'', JObj [(''first'', JStr ''Jo''), (''bogus'', JStr ''x'')]), (''other'', JStr ''y'')])
      = Inr (JObj [(''name'', JObj [(''first'', JStr ''Jo'')])])"
    using t [of JNull strict_engine "[]" "[]" JNull] by simp
  have b: "filtered exports_config [''name.first'', ''name.last'', ''email''] []
        (JObj [(''name'', JObj [(''first'', JStr ''Jo'')])])"
    using t [of "JObj [(''name'', JObj [(''first'', JStr ''Jo''), (''bogus'', JStr ''x'')]), (''other'', JStr ''y'')]"
        strict_engine "[''name.first'', ''name.last'', ''email'']" "[]"
        "JObj [(''name'', JObj [(''first'', JStr ''Jo'')])]"] example_plain(1) a
    by blast
  have c: "filtered exports_config [''email''] []
        (JObj [(''zip'', JNull), (''tags'', JArr [JStr ''a'', JObj []]),
           (''email'', JObj [(''$regex'', JRegExp ''x'' [])])])"
    using t [of "JObj [(''zip'', JNull), (''tags'', JArr [JStr ''a'', JObj [(''x'', JStr ''b'')]]),
           (''email.contains'', JStr ''x''), (''other'', JStr ''y'')]"
        strict_engine "[''email'']" "[]"
        "JObj [(''zip'', JNull), (''tags'', JArr [JStr ''a'', JObj []]),
           (''email'', JObj [(''$regex'', JRegExp ''x'' [])])]"]
      mixed_values_plain(1) mixed_values_compile
    by blast
  have d: "buildQueryFromParams strict_engine exports_config [''email''] []
        (JObj [(''zip'', JNull), (''tags'', JArr [JStr ''a'', JObj [(''x'', JStr ''b'')]]),
           (''email'', JStr ''e''), (''other'', JStr ''y'')])
      = Inr (JObj [(''zip'', JNull), (''tags'', JArr [JStr ''a'', JObj []]), (''email'', JStr ''e'')])"
    using t [of "JObj [(''zip'', JNull), (''tags'', JArr [JStr ''a'', JObj [(''x'', JStr ''b'')]]),
           (''email'', JStr ''e''), (''other'', JStr ''y'')]"
        strict_engine "[''email'']" "[]" JNull]
      mixed_values_plain(2,3)
    unfolding mixed_values_sanitized by blast
  show ?thesis
    using a b c d example_plain(1) mixed_values_plain mixed_values_compile by blast
qed

section \<open>Compiling twice\<close>

subsection \<open>The output is plain and settled\<close>

lemma plain_data_JObj:
  "plain_data (JObj ps) = (distinct (map fst ps) \<and> \<not> numeric_length ps \<and> (\<forall>p \<in> set ps. plain_data (snd p)))"
  by (auto simp: plain_entries_iff)

lemma numeric_length_iff:
  assumes "distinct (map fst ps)"
  shows "numeric_length ps = (\<exists>n. (''length'', JNum n) \<in> set ps)"
proof -
  have "numeric_length ps = (\<exists>n. map_of ps ''length'' = Some (JNum n))"
    by (auto simp: numeric_length_def split: option.splits jsval.splits)
  then show ?thesis using assms by simp
qed

lemma settled_entries_iff:
  "settled_entries cfg ps =
     (\<forall>p \<in> set ps. (modifier_key cfg (fst p) \<longrightarrow> is_directive (snd p)) \<and> settled cfg (snd p))"
  by (induction ps) auto

lemma is_directive_iff: "is_directive v = (\<exists>p f. v = JObj [(''$regex'', JRegExp p f)])"
  by (induction v rule: is_directive.induct) auto

lemma scalar_settled: "\<not> typeof_object v \<Longrightarrow> settled cfg v" and scalar_plain: "\<not> typeof_object v \<Longrightarrow> plain_data v"
  by (cases v; simp)+

lemma compile_plain_settled:
  "fieldModifiers cfg = [''contains'', ''regex''] \<Longrightarrow> plain_data params \<Longrightarrow>
     buildQueryFromParams engine cfg flds ctx params = Inr q \<Longrightarrow> plain_data q \<and> settled cfg q"
  "fieldModifiers cfg = [''contains'', ''regex''] \<Longrightarrow> distinct (map fst ps) \<Longrightarrow> distinct ks \<Longrightarrow>
     (\<forall>n. (''length'', JNum n) \<notin> set ps) \<Longrightarrow>
     (\<forall>p \<in> set ps. plain_data (snd p)) \<Longrightarrow>
     (\<forall>p \<in> set ps. fst p \<notin> set ks \<longrightarrow>
         (modifier_key cfg (fst p) \<longrightarrow> is_directive (snd p)) \<and> settled cfg (snd p)) \<Longrightarrow>
     each_object engine cfg flds ctx ks ps = Inr ps' \<Longrightarrow>
     distinct (map fst ps') \<and> (\<forall>n. (''length'', JNum n) \<notin> set ps')
       \<and> (\<forall>p \<in> set ps'. plain_data (snd p)) \<and> settled_entries cfg ps'"
  "fieldModifiers cfg = [''contains'', ''regex''] \<Longrightarrow> plain_items xs \<Longrightarrow>
     each_array engine cfg flds ctx xs = Inr ys \<Longrightarrow> plain_items ys \<and> settled_items cfg ys"
proof (induction engine cfg flds ctx params and engine cfg flds ctx ks ps and engine cfg flds ctx xs
        arbitrary: q and ps' and ys
        rule: buildQueryFromParams_each_object_each_array.induct)
  case (1 engine cfg flds ctx ps)
  from "1.prems"(3) obtain ps' where e: "each_object engine cfg flds ctx (map fst ps) ps = Inr ps'"
    and q: "q = JObj ps'"
    by (auto simp: compile_simps split: sum.splits)
  from "1.prems"(2) have d: "distinct (map fst ps)" and nl: "\<not> numeric_length ps"
    and pl: "\<forall>p \<in> set ps. plain_data (snd p)"
    by (simp_all add: plain_entries_iff)
  have "distinct (map fst ps') \<and> (\<forall>n. (''length'', JNum n) \<notin> set ps')
       \<and> (\<forall>p \<in> set ps'. plain_data (snd p)) \<and> settled_entries cfg ps'"
    using "1.IH" [OF "1.prems"(1) d d _ pl _ e] nl d by (auto simp: numeric_length_iff)
  then show ?case by (simp add: q plain_entries_iff numeric_length_iff)
next
  case (2 engine cfg flds ctx xs)
  then show ?case by (auto simp: compile_simps split: sum.splits)
next
  case (4 engine cfg flds ctx ps)
  then show ?case by (simp add: compile_simps settled_entries_iff)
next
  case (5 engine cfg flds ctx k ks ps)
  note fm = "5.prems"(1) and dps = "5.prems"(2) and nl = "5.prems"(4) and pl = "5.prems"(5)
    and fin = "5.prems"(6)
  from "5.prems"(3) have dks: "distinct ks" and kks: "k \<notin> set ks" by simp_all
  from "5.prems"(7) obtain key v ps1 where
    rm: "resolve_modifier engine cfg k (obj_get ps k) ps = Inr (key, v, ps1)"
    by (auto simp: compile_simps split: sum.splits)
  let ?ctx' = "if key \<in> set (queryOperatorIgnore cfg) then ctx else field_path ctx k"
  let ?goal = "distinct (map fst ps') \<and> (\<forall>n. (''length'', JNum n) \<notin> set ps')
       \<and> (\<forall>p \<in> set ps'. plain_data (snd p)) \<and> settled_entries cfg ps'"
  from rm show ?case
  proof (cases rule: resolve_modifier_cases)
    case plain
    note [simp] = plain(2,3,4)
    have nmk: "\<not> modifier_key cfg k" using plain(1) by (simp add: modifier_key_def)
    show ?thesis
    proof (cases "typeof_object v")
      case True
      with "5.prems"(7) rm obtain r where
        c: "buildQueryFromParams engine cfg flds ?ctx' v = Inr r"
        and e: "each_object engine cfg flds ctx ks (obj_set key r ps1) = Inr ps'"
        by (auto simp: compile_simps split: sum.splits)
      have kin: "(k, v) \<in> set ps" using True obj_get_object_in [of ps k] by simp
      then have pv: "plain_data v" using pl by auto
      have fr: "plain_data r \<and> settled cfg r" using "5.IH"(1) [OF rm refl refl True fm pv c] .
      have tr: "typeof_object r" using compile_typeof [OF c] True by simp
      have s: "set (obj_set k r ps) = insert (k, r) {p \<in> set ps. fst p \<noteq> k}"
        using dps by (rule set_obj_set)
      show ?thesis
      proof (rule "5.IH"(2) [OF rm refl refl True c fm _ dks _ _ _ e])
        show "distinct (map fst (obj_set key r ps1))" using dps by (simp add: distinct_obj_set)
        show "\<forall>n. (''length'', JNum n) \<notin> set (obj_set key r ps1)"
          using nl tr by (auto simp: s)
        show "\<forall>p\<in>set (obj_set key r ps1). plain_data (snd p)"
          using pl fr by (auto simp: s)
        show "\<forall>p\<in>set (obj_set key r ps1). fst p \<notin> set ks \<longrightarrow>
            (modifier_key cfg (fst p) \<longrightarrow> is_directive (snd p)) \<and> settled cfg (snd p)"
          using fin fr nmk by (auto simp: s)
      qed
    next
      case False
      show ?thesis
      proof (cases "field_path ctx k \<notin> set flds \<and> key \<notin> set (queryOperatorIgnore cfg)")
        case True
        with False "5.prems"(7) rm have
          e: "each_object engine cfg flds ctx ks (obj_delete key ps1) = Inr ps'"
          by (auto simp: compile_simps split: sum.splits)
        show ?thesis
        proof (rule "5.IH"(3) [OF rm refl refl False True fm _ dks _ _ _ e])
          show "distinct (map fst (obj_delete key ps1))" using dps by (simp add: distinct_obj_delete)
          show "\<forall>n. (''length'', JNum n) \<notin> set (obj_delete key ps1)"
            using nl by (auto simp: set_obj_delete)
          show "\<forall>p\<in>set (obj_delete key ps1). plain_data (snd p)"
            using pl by (auto simp: set_obj_delete)
          show "\<forall>p\<in>set (obj_delete key ps1). fst p \<notin> set ks \<longrightarrow>
              (modifier_key cfg (fst p) \<longrightarrow> is_directive (snd p)) \<and> settled cfg (snd p)"
            using fin by (auto simp: set_obj_delete)
        qed
      next
        case ok: False
        with False "5.prems"(7) rm have
          e: "each_object engine cfg flds ctx ks ps1 = Inr ps'"
          by (auto simp: compile_simps split: sum.splits)
        show ?thesis
        proof (rule "5.IH"(4) [OF rm refl refl False ok fm _ dks _ _ _ e])
          show "distinct (map fst ps1)" using dps by simp
          show "\<forall>n. (''length'', JNum n) \<notin> set ps1" using nl by simp
          show "\<forall>p\<in>set ps1. plain_data (snd p)" using pl by simp
          show "\<forall>p\<in>set ps1. fst p \<notin> set ks \<longrightarrow>
              (modifier_key cfg (fst p) \<longrightarrow> is_directive (snd p)) \<and> settled cfg (snd p)"
          proof (intro ballI impI)
            fix p assume p: "p \<in> set ps1" and nk: "fst p \<notin> set ks"
            show "(modifier_key cfg (fst p) \<longrightarrow> is_directive (snd p)) \<and> settled cfg (snd p)"
            proof (cases "fst p = k")
              case True
              then have "p = (k, snd p)" by (cases p) simp
              then have "snd p = v" using obj_get_present [OF dps, of k "snd p"] p by simp
              then show ?thesis using True False nmk by (simp add: scalar_settled)
            next
              case False
              then show ?thesis using fin p nk by auto
            qed
          qed
        qed
      qed
    qed
  next
    case modified
    from modified(1) fm have m: "last (split_on CHR ''.'' k) = ''contains'' \<or> last (split_on CHR ''.'' k) = ''regex''"
      by simp
    from processModifier_directive [OF m modified(2)] obtain pat fl where
      v: "v = JObj [(''$regex'', JRegExp pat fl)]" by blast
    have True: "typeof_object v" by (simp add: v)
    with "5.prems"(7) rm obtain r where
      c: "buildQueryFromParams engine cfg flds ?ctx' v = Inr r"
      and e: "each_object engine cfg flds ctx ks (obj_set key r ps1) = Inr ps'"
      by (auto simp: compile_simps split: sum.splits)
    have r: "r = v" using c compile_directive [OF fm] by (simp add: v)
    have d1: "distinct (map fst ps1)"
      unfolding modified(4) using dps by (intro distinct_obj_set distinct_obj_delete)
    have s: "set (obj_set key r ps1) = insert (key, v) {p \<in> set ps. fst p \<noteq> k \<and> fst p \<noteq> key}"
      using set_obj_set [OF d1, of key r] dps
      by (auto simp: r modified(4) set_obj_set distinct_obj_delete set_obj_delete)
    have nmr: "\<not> modifier_key cfg ''$regex''" using fm by (simp add: modifier_key_def)
    show ?thesis
    proof (rule "5.IH"(2) [OF rm refl refl True c fm _ dks _ _ _ e])
      show "distinct (map fst (obj_set key r ps1))" using d1 by (rule distinct_obj_set)
      show "\<forall>n. (''length'', JNum n) \<notin> set (obj_set key r ps1)"
        using nl by (auto simp: s v)
      show "\<forall>p\<in>set (obj_set key r ps1). plain_data (snd p)"
        using pl by (auto simp: s v numeric_length_def)
      show "\<forall>p\<in>set (obj_set key r ps1). fst p \<notin> set ks \<longrightarrow>
          (modifier_key cfg (fst p) \<longrightarrow> is_directive (snd p)) \<and> settled cfg (snd p)"
        using fin nmr by (auto simp: s v)
    qed
  qed
next
  case (6 engine cfg flds ctx)
  then show ?case by (simp add: compile_simps)
next
  case (7 engine cfg flds ctx x xs)
  from "7.prems"(3) obtain y ys' where
    c: "buildQueryFromParams engine cfg flds ctx x = Inr y"
    and e: "each_array engine cfg flds ctx xs = Inr ys'" and ys: "ys = y # ys'"
    by (auto simp: compile_simps split: sum.splits)
  have "plain_data y \<and> settled cfg y" using "7.IH"(1) [OF "7.prems"(1) _ c] "7.prems"(2) by simp
  moreover have "plain_items ys' \<and> settled_items cfg ys'"
    using "7.IH"(2) [OF c "7.prems"(1) _ e] "7.prems"(2) by simp
  ultimately show ?case by (simp add: ys)
qed (auto simp: compile_simps)

lemma scalar_no_modifier_keys: "\<not> typeof_object v \<Longrightarrow> no_modifier_keys cfg v"
  by (cases v) simp_all

lemma processModifier_directive_throws:
  assumes "m = ''contains'' \<or> m = ''regex''" and "is_directive v"
  shows "processModifier engine m v = Inl TypeError"
  using assms by (auto simp: is_directive_iff processModifier.simps)

lemma resolve_modifier_directive_throws:
  assumes "fieldModifiers cfg = [''contains'', ''regex'']" and "modifier_key cfg k" and "is_directive v"
  shows "resolve_modifier engine cfg k v ps = Inl TypeError"
proof -
  from assms(1,2) have "last (split_on CHR ''.'' k) = ''contains'' \<or> last (split_on CHR ''.'' k) = ''regex''"
    by (simp add: modifier_key_def)
  then have "processModifier engine (last (split_on CHR ''.'' k)) v = Inl TypeError"
    using assms(3) by (rule processModifier_directive_throws)
  then show ?thesis using assms(2) by (simp add: resolve_modifier_def modifier_key_def Let_def)
qed

lemma no_modifier_entries_by_key:
  assumes "distinct (map fst ps)"
  shows "no_modifier_entries cfg ps =
     (\<forall>k \<in> set (map fst ps). \<not> modifier_key cfg k \<and> no_modifier_keys cfg (obj_get ps k))"
proof -
  have "obj_get ps (fst p) = snd p" if "p \<in> set ps" for p
    using obj_get_present [OF assms, of "fst p" "snd p"] that by simp
  then show ?thesis by (auto simp: no_modifier_entries_iff)
qed

lemma recompile_cases:
  "fieldModifiers cfg = [''contains'', ''regex''] \<Longrightarrow> filtered cfg flds ctx q \<Longrightarrow> settled cfg q \<Longrightarrow>
     plain_data q \<Longrightarrow>
     buildQueryFromParams engine cfg flds ctx q = (if no_modifier_keys cfg q then Inr q else Inl TypeError)"
  "fieldModifiers cfg = [''contains'', ''regex''] \<Longrightarrow> filtered_entries cfg flds ctx ps \<Longrightarrow>
     settled_entries cfg ps \<Longrightarrow> (\<forall>p \<in> set ps. plain_data (snd p)) \<Longrightarrow> set ks \<subseteq> fst ` set ps \<Longrightarrow>
     each_object engine cfg flds ctx ks ps =
       (if \<forall>k \<in> set ks. \<not> modifier_key cfg k \<and> no_modifier_keys cfg (obj_get ps k)
        then Inr ps else Inl TypeError)"
  "fieldModifiers cfg = [''contains'', ''regex''] \<Longrightarrow> filtered_items cfg flds ctx xs \<Longrightarrow>
     settled_items cfg xs \<Longrightarrow> plain_items xs \<Longrightarrow>
     each_array engine cfg flds ctx xs = (if no_modifier_items cfg xs then Inr xs else Inl TypeError)"
proof (induction engine cfg flds ctx q and engine cfg flds ctx ks ps and engine cfg flds ctx xs
        rule: buildQueryFromParams_each_object_each_array.induct)
  case (1 engine cfg flds ctx ps)
  from "1.prems"(4) have d: "distinct (map fst ps)" and pl: "\<forall>p \<in> set ps. plain_data (snd p)"
    by (simp_all add: plain_entries_iff)
  have "each_object engine cfg flds ctx (map fst ps) ps =
       (if \<forall>k \<in> set (map fst ps). \<not> modifier_key cfg k \<and> no_modifier_keys cfg (obj_get ps k)
        then Inr ps else Inl TypeError)"
    using "1.IH" [OF "1.prems"(1) _ _ pl] "1.prems"(2,3) by simp
  then show ?case using no_modifier_entries_by_key [OF d, of cfg] by (simp add: compile_simps)
next
  case (2 engine cfg flds ctx xs)
  then show ?case by (simp add: compile_simps)
next
  case (4 engine cfg flds ctx ps)
  then show ?case by (simp add: compile_simps)
next
  case (5 engine cfg flds ctx k ks ps)
  note fm = "5.prems"(1) and fl = "5.prems"(2) and st = "5.prems"(3) and pl = "5.prems"(4)
  from "5.prems"(5) have kin: "k \<in> fst ` set ps" and sub: "set ks \<subseteq> fst ` set ps" by simp_all
  let ?v = "obj_get ps k"
  have mem: "(k, ?v) \<in> set ps" and mo: "map_of ps k = Some ?v" using obj_get_in [OF kin] by simp_all
  have ok: "entry_ok cfg flds ctx (k, ?v)" using fl mem by (auto simp: filtered_entries_iff)
  have sv: "settled cfg ?v" and dir: "modifier_key cfg k \<longrightarrow> is_directive ?v"
    using st mem by (auto simp: settled_entries_iff)
  have pv: "plain_data ?v" using pl mem by auto
  let ?ctx' = "if k \<in> set (queryOperatorIgnore cfg) then ctx else field_path ctx k"
  let ?rest = "\<forall>k \<in> set ks. \<not> modifier_key cfg k \<and> no_modifier_keys cfg (obj_get ps k)"
  show ?case
  proof (cases "modifier_key cfg k")
    case True
    then have "resolve_modifier engine cfg k ?v ps = Inl TypeError"
      using fm dir by (simp add: resolve_modifier_directive_throws)
    then show ?thesis using True by (simp add: compile_simps)
  next
    case nm: False
    have rm: "resolve_modifier engine cfg k ?v ps = Inr (k, ?v, ps)" using nm by (rule resolve_modifier_plain)
    show ?thesis
    proof (cases "typeof_object ?v")
      case True
      then have f: "filtered cfg flds ?ctx' ?v" using ok by (auto simp: entry_ok_def split: if_splits)
      have c: "buildQueryFromParams engine cfg flds ?ctx' ?v =
          (if no_modifier_keys cfg ?v then Inr ?v else Inl TypeError)"
        using "5.IH"(1) [OF rm refl refl True fm f sv pv] .
      show ?thesis
      proof (cases "no_modifier_keys cfg ?v")
        case nv: True
        then have c': "buildQueryFromParams engine cfg flds ?ctx' ?v = Inr ?v" using c by simp
        have same: "obj_set k ?v ps = ps" using mo by (rule obj_set_same)
        have "each_object engine cfg flds ctx ks ps = (if ?rest then Inr ps else Inl TypeError)"
          using "5.IH"(2) [OF rm refl refl True c' fm] fl st pl sub by (simp add: same)
        then show ?thesis using True rm c' nm nv by (simp add: compile_simps same)
      next
        case nv: False
        then have "buildQueryFromParams engine cfg flds ?ctx' ?v = Inl TypeError" using c by simp
        then show ?thesis using True rm nv by (simp add: compile_simps)
      qed
    next
      case False
      then have nd: "\<not> (field_path ctx k \<notin> set flds \<and> k \<notin> set (queryOperatorIgnore cfg))"
        using ok by (simp add: entry_ok_def entry_filtered_def)
      have nv: "no_modifier_keys cfg ?v" using False by (rule scalar_no_modifier_keys)
      have "each_object engine cfg flds ctx ks ps = (if ?rest then Inr ps else Inl TypeError)"
        using "5.IH"(4) [OF rm refl refl False nd fm fl st pl sub] .
      then show ?thesis using False rm nd nm nv by (auto simp: compile_simps)
    qed
  qed
next
  case (6 engine cfg flds ctx)
  then show ?case by (simp add: compile_simps)
next
  case (7 engine cfg flds ctx x xs)
  from "7.prems" have c: "buildQueryFromParams engine cfg flds ctx x =
      (if no_modifier_keys cfg x then Inr x else Inl TypeError)"
    using "7.IH"(1) by simp
  show ?case
  proof (cases "no_modifier_keys cfg x")
    case True
    then have c': "buildQueryFromParams engine cfg flds ctx x = Inr x" using c by simp
    have "each_array engine cfg flds ctx xs = (if no_modifier_items cfg xs then Inr xs else Inl TypeError)"
      using "7.IH"(2) [OF c'] "7.prems" by simp
    then show ?thesis using True c' by (simp add: compile_simps)
  next
    case False
    then show ?thesis using c by (simp add: compile_simps)
  qed
qed (auto simp: compile_simps)

lemma double_modifier_compiles:
  "buildQueryFromParams engine exports_config [''email''] []
     (JObj [(''email.contains.contains'', JStr ''x'')])
   = Inr (JObj [(''email.contains'', JObj [(''$regex'', JRegExp ''x'' [])])])"
  by code_simp

lemma directive_under_modifier_key_throws:
  "buildQueryFromParams engine exports_config [''email''] []
     (JObj [(''email.contains'', JObj [(''$regex'', JRegExp ''x'' [])])])
   = Inl TypeError"
  by code_simp

text \<open>
  C3, as stated: compiling the output of a compilation gives that output again. The
  mapping \<^verbatim>\<open>{"email.contains.contains": "x"}\<close> compiles to a mapping with the key
  \<^verbatim>\<open>email.contains\<close> holding a directive; compiling that output takes the key for a modifier
  again, applies \<^verbatim>\<open>contains\<close> to the directive and throws.
\<close>

theorem recompile_throws_counterexample:
  "buildQueryFromParams strict_engine exports_config [''email''] []
     (JObj [(''email.contains.contains'', JStr ''x'')])
     = Inr (JObj [(''email.contains'', JObj [(''$regex'', JRegExp ''x'' [])])])
   \<and> buildQueryFromParams strict_engine exports_config [''email''] []
       (JObj [(''email.contains'', JObj [(''$regex'', JRegExp ''x'' [])])])
     = Inl TypeError
   \<and> buildQueryFromParams strict_engine exports_config [''email''] []
       (JObj [(''email.contains'', JObj [(''$regex'', JRegExp ''x'' [])])])
     \<noteq> buildQueryFromParams strict_engine exports_config [''email''] []
       (JObj [(''email.contains.contains'', JStr ''x'')])"
  by (simp add: double_modifier_compiles directive_under_modifier_key_throws)

text \<open>
  C3, amended: for every plain parameter mapping, whitelist and context for which
  compiling succeeds: when the output has no key, at any depth, whose last dot-separated
  segment is a modifier name, compiling the output again (same whitelist, same context)
  gives the same result; when it has such a key, compiling the output again throws.
\<close>

theorem recompile_returns_same:
  assumes "plain_data p"
    and "buildQueryFromParams engine exports_config flds ctx p = Inr q"
  shows "buildQueryFromParams engine exports_config flds ctx q =
     (if no_modifier_keys exports_config q
      then buildQueryFromParams engine exports_config flds ctx p
      else Inl TypeError)"
proof -
  have f: "filtered exports_config flds ctx q"
    using fieldModifiers_default assms by (rule compile_filtered(1))
  have ps: "plain_data q \<and> settled exports_config q"
    using fieldModifiers_default assms by (rule compile_plain_settled(1))
  show ?thesis
    using recompile_cases(1) [OF fieldModifiers_default f] ps by (simp add: assms(2))
qed

lemma mixed_example_compiles:
  "buildQueryFromParams engine exports_config [''name.first'', ''email''] []
     (JObj [(''name'', JObj [(''first'', JStr ''Jo''), (''bogus'', JStr ''x'')]),
            (''email.contains'', JStr ''a''), (''tags'', JArr [JStr ''t'', JObj [(''z'', JNum 1)]]),
            (''other'', JStr ''y'')])
   = Inr (JObj [(''name'', JObj [(''first'', JStr ''Jo'')]),
                (''tags'', JArr [JStr ''t'', JObj []]),
                (''email'', JObj [(''$regex'', JRegExp ''a'' [])])])"
  by code_simp

theorem recompile_returns_same_witness:
  "buildQueryFromParams strict_engine exports_config [''name.first'', ''email''] []
     (JObj [(''name'', JObj [(''first'', JStr ''Jo''), (''bogus'', JStr ''x'')]),
            (''email.contains'', JStr ''a''), (''tags'', JArr [JStr ''t'', JObj [(''z'', JNum 1)]]),
            (''other'', JStr ''y'')])
     = Inr (JObj [(''name'', JObj [(''first'', JStr ''Jo'')]),
                  (''tags'', JArr [JStr ''t'', JObj []]),
                  (''email'', JObj [(''$regex'', JRegExp ''a'' [])])])
   \<and> buildQueryFromParams strict_engine exports_config [''name.first'', ''email''] []
       (JObj [(''name'', JObj [(''first'', JStr ''Jo'')]),
              (''tags'', JArr [JStr ''t'', JObj []]),
              (''email'', JObj [(''$regex'', JRegExp ''a'' [])])])
     = Inr (JObj [(''name'', JObj [(''first'', JStr ''Jo'')]),
                  (''tags'', JArr [JStr ''t'', JObj []]),
                  (''email'', JObj [(''$regex'', JRegExp ''a'' [])])])"
proof -
  have p: "plain_data (JObj [(''name'', JObj [(''first'', JStr ''Jo''), (''bogus'', JStr ''x'')]),
            (''email.contains'', JStr ''a''), (''tags'', JArr [JStr ''t'', JObj [(''z'', JNum 1)]]),
            (''other'', JStr ''y'')])"
    by (simp add: numeric_length_def)
  have n: "no_modifier_keys exports_config
      (JObj [(''name'', JObj [(''first'', JStr ''Jo'')]),
             (''tags'', JArr [JStr ''t'', JObj []]),
             (''email'', JObj [(''$regex'', JRegExp ''a'' [])])])"
    by (simp add: modifier_key_def fieldModifiers_default)
  show ?thesis
    using recompile_returns_same [OF p mixed_example_compiles] n
    by (simp add: mixed_example_compiles)
qed

end
